theory Spec2Isabelle
  imports Main
begin

section \<open>Task management API: tasks, tags, soft delete, filtered listing\<close>

text \<open>
  A shallow embedding of \<^verbatim>\<open>app/models.py\<close>, \<^verbatim>\<open>app/schemas.py\<close> and
  \<^verbatim>\<open>app/routers/tasks.py\<close>.

  The handlers talk to a relational database through an ORM session. The embedding makes
  the database an explicit value that every handler takes and returns:
  \<^item> a table is the list of its rows, in insertion order;
  \<^item> a handler returns a pair: its outcome (\<open>Inl\<close> an error, \<open>Inr\<close> the value it
    returns) and the database as the session holds it when the handler returns or raises;
  \<^item> \<^verbatim>\<open>func.now()\<close> and \<^verbatim>\<open>datetime.datetime.now\<close> are read from parameters, one for
    the database clock and one for the interpreter's clock;
  \<^item> \<^verbatim>\<open>datetime.date.fromisoformat\<close> is a parameter \<open>fromisoformat\<close>, \<open>None\<close> where the
    library raises \<^verbatim>\<open>ValueError\<close>.

  A \<open>char\<close> stands for one code point of the Latin-1 range, a \<open>string\<close> for a Python
  \<^verbatim>\<open>str\<close> over that range.
\<close>

subsection \<open>Data model (\<^verbatim>\<open>app/models.py\<close>)\<close>

type_synonym timestamp = int

datatype date = Date int int int

record tag =
  tag_id :: nat
  tag_name :: string

text \<open>
  The columns of \<^verbatim>\<open>tasks\<close>. Only \<^verbatim>\<open>description\<close> and \<^verbatim>\<open>deleted_at\<close> are nullable; the
  other columns are \<^verbatim>\<open>nullable=False\<close>, so their type has no null and a write of null to
  one of them is an \<open>IntegrityError\<close> of the flush. The column \<^verbatim>\<open>id\<close> is \<open>task_id\<close> here.
\<close>

record task =
  task_id :: nat
  title :: string
  description :: "string option"
  priority :: int
  due_date :: date
  completed :: bool
  is_deleted :: bool
  deleted_at :: "timestamp option"
  created_at :: timestamp
  updated_at :: timestamp

text \<open>
  The database: the two tables and the association table \<^verbatim>\<open>task_tags\<close>, whose rows are
  pairs (task id, tag id).
\<close>

record db =
  tasks :: "task list"
  tags :: "tag list"
  task_tags :: "(nat \<times> nat) list"

definition empty_db :: db where
  "empty_db = \<lparr>tasks = [], tags = [], task_tags = []\<rparr>"

datatype error =
  NotFound
  | IntegrityError
  | DataError
  | ValueError
  | MultipleResultsFound

text \<open>
  \<^verbatim>\<open>autoincrement=True\<close>: a new row gets an id above every id of the table. No row of
  either table is ever removed, so the next id is one more than the largest.
\<close>

fun max_id :: "nat list \<Rightarrow> nat" where
  "max_id [] = 0"
| "max_id (x # xs) = max x (max_id xs)"

definition next_id :: "nat list \<Rightarrow> nat" where
  "next_id ids = Suc (max_id ids)"

text \<open>
  The constraints the schema declares: the primary keys of the three tables and the
  \<^verbatim>\<open>unique=True\<close> of \<^verbatim>\<open>Tag.name\<close>.
\<close>

definition schema_ok :: "db \<Rightarrow> bool" where
  "schema_ok d \<longleftrightarrow>
     distinct (map task_id (tasks d)) \<and>
     distinct (map tag_id (tags d)) \<and>
     distinct (map tag_name (tags d)) \<and>
     distinct (task_tags d)"

subsection \<open>Strings: \<^verbatim>\<open>str.strip\<close>, \<^verbatim>\<open>str.lower\<close>, \<^verbatim>\<open>str.split(",")\<close>\<close>

definition isspace :: "char \<Rightarrow> bool" where
  "isspace c \<longleftrightarrow> (of_char c :: nat) \<in> {9, 10, 11, 12, 13, 28, 29, 30, 31, 32, 133, 160}"

definition strip :: "string \<Rightarrow> string" where
  "strip s = rev (dropWhile isspace (rev (dropWhile isspace s)))"

definition lower_char :: "char \<Rightarrow> char" where
  "lower_char c =
     (let n = (of_char c :: nat)
      in if (65 \<le> n \<and> n \<le> 90) \<or> (192 \<le> n \<and> n \<le> 222 \<and> n \<noteq> 215)
         then char_of (n + 32) else c)"

definition lower :: "string \<Rightarrow> string" where
  "lower s = map lower_char s"

text \<open>\<^verbatim>\<open>s.split(",")\<close>: never empty; \<^verbatim>\<open>"".split(",")\<close> is \<^verbatim>\<open>[""]\<close>.\<close>

fun split_comma :: "string \<Rightarrow> string list" where
  "split_comma [] = [[]]"
| "split_comma (c # cs) =
     (if c = CHR '','' then [] # split_comma cs
      else (case split_comma cs of
              [] \<Rightarrow> [[c]]
            | w # ws \<Rightarrow> (c # w) # ws))"

subsection \<open>Request schemas (\<^verbatim>\<open>app/schemas.py\<close>)\<close>

text \<open>
  \<^verbatim>\<open>validate_tags\<close>, the same in \<^verbatim>\<open>TaskCreate\<close> and \<^verbatim>\<open>TaskUpdate\<close>: blank names are
  dropped, the others trimmed and lowercased, and a list with nothing left becomes null.
\<close>

definition validate_tags :: "string list option \<Rightarrow> string list option" where
  "validate_tags v =
     (case v of
        Some names \<Rightarrow>
          (let cleaned = map (\<lambda>tag. lower (strip tag)) (filter (\<lambda>tag. strip tag \<noteq> []) names)
           in if cleaned \<noteq> [] then Some cleaned else None)
      | None \<Rightarrow> None)"

text \<open>
  A validated \<^verbatim>\<open>TaskCreate\<close>. The bounds on the title, the priority and the date are
  checked before the handler runs; the handlers do not look at them again.
\<close>

record task_create =
  c_title :: string
  c_description :: "string option"
  c_priority :: int
  c_due_date :: string
  c_tags :: "string list option"

text \<open>
  A validated \<^verbatim>\<open>TaskUpdate\<close> as \<^verbatim>\<open>model_dump(exclude_unset=True)\<close> shows it. Every field
  has three states: \<open>None\<close> is a key that the request did not set, \<open>Some None\<close> a key
  set to null, \<open>Some (Some v)\<close> a key set to \<open>v\<close>.
\<close>

record task_update =
  u_title :: "string option option"
  u_description :: "string option option"
  u_priority :: "int option option"
  u_due_date :: "string option option"
  u_completed :: "bool option option"
  u_tags :: "string list option option"

definition no_update :: task_update where
  "no_update = \<lparr>u_title = None, u_description = None, u_priority = None,
                 u_due_date = None, u_completed = None, u_tags = None\<rparr>"

text \<open>
  The \<^verbatim>\<open>tags\<close> key of a request body as the handler sees it: the validator runs on the
  value of a key that is set, null included.
\<close>

definition body_tags :: "string list option option \<Rightarrow> string list option option" where
  "body_tags raw = map_option validate_tags raw"

subsection \<open>Tag store (\<^verbatim>\<open>_get_or_create_tags\<close>)\<close>

text \<open>
  \<^verbatim>\<open>scalar_one_or_none\<close> raises \<^verbatim>\<open>MultipleResultsFound\<close> on more than one row. A new tag
  is flushed at once; the column is \<^verbatim>\<open>String(100)\<close>, and the PostgreSQL of
  \<^verbatim>\<open>app/config.py\<close> refuses a longer name. The loop appends to its result; the recursion
  builds the same list from the front.
\<close>

fun get_or_create_tags :: "db \<Rightarrow> string list \<Rightarrow> (error + tag list) \<times> db" where
  "get_or_create_tags d [] = (Inr [], d)"
| "get_or_create_tags d (name # names) =
     (case filter (\<lambda>g. tag_name g = name) (tags d) of
        [] \<Rightarrow>
          (if 100 < length name then (Inl DataError, d)
           else
             (let g = \<lparr>tag_id = next_id (map tag_id (tags d)), tag_name = name\<rparr>;
                  d1 = d\<lparr>tags := tags d @ [g]\<rparr>
              in case get_or_create_tags d1 names of
                   (Inl e, d2) \<Rightarrow> (Inl e, d2)
                 | (Inr gs, d2) \<Rightarrow> (Inr (g # gs), d2)))
      | [g] \<Rightarrow>
          (case get_or_create_tags d names of
             (Inl e, d2) \<Rightarrow> (Inl e, d2)
           | (Inr gs, d2) \<Rightarrow> (Inr (g # gs), d2))
      | _ \<Rightarrow> (Inl MultipleResultsFound, d))"

subsection \<open>The relationship \<^verbatim>\<open>Task.tags\<close> and its flush\<close>

text \<open>
  Loading \<^verbatim>\<open>task.tags\<close> joins the association table with \<^verbatim>\<open>tags\<close>. The database
  leaves the order of the tags open; here it is the order of the association rows. The
  properties below speak of the tags of a task as a set.
\<close>

definition tags_of :: "db \<Rightarrow> nat \<Rightarrow> tag list" where
  "tags_of d tid = [g. (a, b) \<leftarrow> task_tags d, a = tid, g \<leftarrow> tags d, tag_id g = b]"

text \<open>
  Assigning a list to \<^verbatim>\<open>task.tags\<close> and flushing: the unit of work compares the new
  collection with the loaded one, deletes the association rows of the tags that left and
  inserts a row for each tag that came. A tag named twice in the list gets one row
  (\<^verbatim>\<open>test_create_task_duplicate_tags_handled\<close>).
\<close>

definition set_task_tags :: "nat \<Rightarrow> tag list \<Rightarrow> db \<Rightarrow> db" where
  "set_task_tags tid new d =
     (let original = map tag_id (tags_of d tid);
          current = map tag_id new;
          added = remdups (filter (\<lambda>g. g \<notin> set original) current);
          deleted = filter (\<lambda>g. g \<notin> set current) original
      in d\<lparr>task_tags :=
             filter (\<lambda>(a, b). \<not> (a = tid \<and> b \<in> set deleted)) (task_tags d)
             @ map (Pair tid) added\<rparr>)"

subsection \<open>\<^verbatim>\<open>create_task\<close>\<close>

definition create_task ::
  "(string \<Rightarrow> date option) \<Rightarrow> timestamp \<Rightarrow> task_create \<Rightarrow> db
     \<Rightarrow> (error + task \<times> tag list) \<times> db" where
  "create_task fromisoformat now payload d =
     (case fromisoformat (c_due_date payload) of
        None \<Rightarrow> (Inl ValueError, d)
      | Some dd \<Rightarrow>
          (case (case c_tags payload of
                   None \<Rightarrow> (Inr [], d)
                 | Some names \<Rightarrow>
                     if names = [] then (Inr [], d) else get_or_create_tags d names) of
             (Inl e, d1) \<Rightarrow> (Inl e, d1)
           | (Inr gs, d1) \<Rightarrow>
               (let t = \<lparr>task_id = next_id (map task_id (tasks d1)),
                         title = c_title payload,
                         description = c_description payload,
                         priority = c_priority payload,
                         due_date = dd,
                         completed = False,
                         is_deleted = False,
                         deleted_at = None,
                         created_at = now,
                         updated_at = now\<rparr>;
                    d2 = d1\<lparr>tasks := tasks d1 @ [t]\<rparr>;
                    d3 = set_task_tags (task_id t) gs d2
                in (Inr (t, tags_of d3 (task_id t)), d3))))"

subsection \<open>\<^verbatim>\<open>list_tasks\<close>\<close>

definition parse_tag_names :: "string \<Rightarrow> string list" where
  "parse_tag_names s =
     map (\<lambda>t. lower (strip t)) (filter (\<lambda>t. strip t \<noteq> []) (split_comma s))"

definition base_filters :: "bool option \<Rightarrow> int option \<Rightarrow> task \<Rightarrow> bool" where
  "base_filters completed_q priority_q t \<longleftrightarrow>
     \<not> is_deleted t \<and>
     (case completed_q of None \<Rightarrow> True | Some c \<Rightarrow> completed t = c) \<and>
     (case priority_q of None \<Rightarrow> True | Some p \<Rightarrow> priority t = p)"

text \<open>The tag names a request asks for; none when the parameter is absent or empty.\<close>

definition requested_tags :: "string option \<Rightarrow> string list" where
  "requested_tags tags_q =
     (case tags_q of None \<Rightarrow> [] | Some s \<Rightarrow> if s = [] then [] else parse_tag_names s)"

text \<open>
  The query before pagination: the filtered rows, and with tag names the join with
  \<^verbatim>\<open>task_tags\<close> and \<^verbatim>\<open>tags\<close> under \<^verbatim>\<open>DISTINCT\<close>.
\<close>

definition select_tasks :: "bool option \<Rightarrow> int option \<Rightarrow> string option \<Rightarrow> db \<Rightarrow> task list" where
  "select_tasks completed_q priority_q tags_q d =
     (let query = filter (base_filters completed_q priority_q) (tasks d)
      in case tags_q of
           None \<Rightarrow> query
         | Some s \<Rightarrow>
             if s = [] then query
             else
               (let tag_names = parse_tag_names s
                in if tag_names = [] then query
                   else remdups
                          [t. t \<leftarrow> query, (a, b) \<leftarrow> task_tags d, a = task_id t,
                              g \<leftarrow> tags d, tag_id g = b, tag_name g \<in> set tag_names]))"

text \<open>
  \<^verbatim>\<open>order_by(Task.created_at.desc())\<close>. The database leaves the order of rows with equal
  \<^verbatim>\<open>created_at\<close> open; here they keep the order of the query.
\<close>

definition order_by_created_at_desc :: "task list \<Rightarrow> task list" where
  "order_by_created_at_desc rows = sort_key (\<lambda>t. - created_at t) rows"

record task_page =
  p_total :: nat
  p_limit :: nat
  p_offset :: nat
  p_tasks :: "(task \<times> tag list) list"

definition list_tasks ::
  "bool option \<Rightarrow> int option \<Rightarrow> string option \<Rightarrow> nat \<Rightarrow> nat \<Rightarrow> db \<Rightarrow> task_page" where
  "list_tasks completed_q priority_q tags_q limit offset d =
     (let query = select_tasks completed_q priority_q tags_q d;
          total = length query;
          page = remdups (take limit (drop offset (order_by_created_at_desc query)))
      in \<lparr>p_total = total, p_limit = limit, p_offset = offset,
          p_tasks = map (\<lambda>t. (t, tags_of d (task_id t))) page\<rparr>)"

subsection \<open>\<^verbatim>\<open>get_task\<close>\<close>

text \<open>
  \<^verbatim>\<open>get_task\<close> and \<^verbatim>\<open>update_task\<close> take the id as the id of a row, a natural number.
  The properties below apply them to the ids of stored rows or assume that they return a
  task; an id beyond the range of the column, which the driver refuses as it does in
  \<^verbatim>\<open>delete_task\<close>, is outside what they are stated for.
\<close>

definition get_task :: "nat \<Rightarrow> db \<Rightarrow> error + task \<times> tag list" where
  "get_task tid d =
     (case filter (\<lambda>t. task_id t = tid \<and> \<not> is_deleted t) (tasks d) of
        [] \<Rightarrow> Inl NotFound
      | [t] \<Rightarrow> Inr (t, tags_of d tid)
      | _ \<Rightarrow> Inl MultipleResultsFound)"

subsection \<open>\<^verbatim>\<open>update_task\<close>\<close>

text \<open>The \<^verbatim>\<open>tags\<close> key: absent, null (the \<^verbatim>\<open>else\<close> branch assigns \<^verbatim>\<open>[]\<close>), or names.\<close>

definition update_tags_value ::
  "db \<Rightarrow> string list option option \<Rightarrow> (error + tag list option) \<times> db" where
  "update_tags_value d v =
     (case v of
        None \<Rightarrow> (Inr None, d)
      | Some None \<Rightarrow> (Inr (Some []), d)
      | Some (Some tag_names) \<Rightarrow>
          (case get_or_create_tags d tag_names of
             (Inl e, d1) \<Rightarrow> (Inl e, d1)
           | (Inr gs, d1) \<Rightarrow> (Inr (Some gs), d1)))"

definition convert_due_date ::
  "(string \<Rightarrow> date option) \<Rightarrow> string option option \<Rightarrow> error + date option option" where
  "convert_due_date fromisoformat v =
     (case v of
        None \<Rightarrow> Inr None
      | Some None \<Rightarrow> Inr (Some None)
      | Some (Some s) \<Rightarrow>
          (case fromisoformat s of
             None \<Rightarrow> Inl ValueError
           | Some dd \<Rightarrow> Inr (Some (Some dd))))"

text \<open>
  The \<^verbatim>\<open>setattr\<close> loop over the keys that are left. A null reaches only a nullable
  column: \<open>null_written\<close> tells the others.
\<close>

definition null_written :: "task_update \<Rightarrow> bool" where
  "null_written p \<longleftrightarrow>
     u_title p = Some None \<or> u_priority p = Some None \<or>
     u_due_date p = Some None \<or> u_completed p = Some None"

definition set_fields :: "task_update \<Rightarrow> date option option \<Rightarrow> task \<Rightarrow> task" where
  "set_fields p dd t =
     t\<lparr>title := (case u_title p of Some (Some v) \<Rightarrow> v | _ \<Rightarrow> title t),
       description := (case u_description p of Some v \<Rightarrow> v | None \<Rightarrow> description t),
       priority := (case u_priority p of Some (Some v) \<Rightarrow> v | _ \<Rightarrow> priority t),
       due_date := (case dd of Some (Some v) \<Rightarrow> v | _ \<Rightarrow> due_date t),
       completed := (case u_completed p of Some (Some v) \<Rightarrow> v | _ \<Rightarrow> completed t)\<rparr>"

text \<open>
  The flush of the task row. \<^verbatim>\<open>update_task\<close> never assigns \<^verbatim>\<open>updated_at\<close>; the column
  has \<^verbatim>\<open>onupdate=func.now()\<close>, a value that the ORM adds to the \<^verbatim>\<open>UPDATE\<close> statement of
  the row. The unit of work emits that statement only for attributes whose value differs
  from the loaded one, and a change of \<^verbatim>\<open>task.tags\<close> writes to \<^verbatim>\<open>task_tags\<close>, not to the
  row: with no column to write there is no statement and \<^verbatim>\<open>updated_at\<close> stays.
\<close>

definition flush_task :: "timestamp \<Rightarrow> task \<Rightarrow> task_update \<Rightarrow> date option option \<Rightarrow> error + task" where
  "flush_task now t p dd =
     (if null_written p then Inl IntegrityError
      else (let t' = set_fields p dd t
            in Inr (if t' = t then t else t'\<lparr>updated_at := now\<rparr>)))"

definition update_task ::
  "(string \<Rightarrow> date option) \<Rightarrow> timestamp \<Rightarrow> nat \<Rightarrow> task_update \<Rightarrow> db
     \<Rightarrow> (error + task \<times> tag list) \<times> db" where
  "update_task fromisoformat now tid payload d =
     (case filter (\<lambda>t. task_id t = tid \<and> \<not> is_deleted t) (tasks d) of
        [] \<Rightarrow> (Inl NotFound, d)
      | [t] \<Rightarrow>
          (case update_tags_value d (u_tags payload) of
             (Inl e, d1) \<Rightarrow> (Inl e, d1)
           | (Inr new_tags, d1) \<Rightarrow>
               (case convert_due_date fromisoformat (u_due_date payload) of
                  Inl e \<Rightarrow> (Inl e, d1)
                | Inr dd \<Rightarrow>
                    (case flush_task now t payload dd of
                       Inl e \<Rightarrow> (Inl e, d1)
                     | Inr t' \<Rightarrow>
                         (let d2 = d1\<lparr>tasks := map (\<lambda>r. if task_id r = tid then t' else r)
                                                   (tasks d1)\<rparr>;
                              d3 = (case new_tags of
                                      None \<Rightarrow> d2
                                    | Some gs \<Rightarrow> set_task_tags tid gs d2)
                          in (Inr (t', tags_of d3 tid), d3)))))
      | _ \<Rightarrow> (Inl MultipleResultsFound, d))"

subsection \<open>\<^verbatim>\<open>delete_task\<close>\<close>

text \<open>
  The path parameter is \<^verbatim>\<open>task_id: int\<close>, an integer without bounds, and the column
  \<^verbatim>\<open>id\<close> is an \<^verbatim>\<open>Integer\<close>: the PostgreSQL driver of \<^verbatim>\<open>app/config.py\<close> refuses an id
  outside \<open>-2147483648 .. 2147483647\<close> when it binds the parameter of the \<^verbatim>\<open>SELECT\<close>,
  before any row is read, and the handler ends with that error. An id in the range, a
  negative one included, is compared with the ids of the rows.

  \<^verbatim>\<open>deleted_at\<close> is the interpreter's clock; the row changes, so the \<^verbatim>\<open>UPDATE\<close> carries
  \<^verbatim>\<open>updated_at\<close> from the database clock.
\<close>

definition delete_task :: "timestamp \<Rightarrow> timestamp \<Rightarrow> int \<Rightarrow> db \<Rightarrow> (error + unit) \<times> db" where
  "delete_task py_now db_now tid d =
     (if tid < - 2147483648 \<or> 2147483647 < tid then (Inl DataError, d)
      else
        (case filter (\<lambda>t. int (task_id t) = tid \<and> \<not> is_deleted t) (tasks d) of
           [] \<Rightarrow> (Inl NotFound, d)
         | [t] \<Rightarrow>
             (let t' = t\<lparr>is_deleted := True, deleted_at := Some py_now, updated_at := db_now\<rparr>
              in (Inr (),
                  d\<lparr>tasks := map (\<lambda>r. if int (task_id r) = tid then t' else r) (tasks d)\<rparr>))
         | _ \<Rightarrow> (Inl MultipleResultsFound, d)))"

subsection \<open>Requests in sequence\<close>

text \<open>
  Modelled from the spec: \<^verbatim>\<open>get_db\<close> of \<^verbatim>\<open>app/database.py\<close>, which is not among the
  sources. Every operation runs in one transaction (section 5 of the specification): the
  session commits when the handler returns and rolls back when it raises, as the session of
  \<^verbatim>\<open>tests/conftest.py\<close> does. So a failed request leaves the database as it was, and a
  step is one committed request that writes.
\<close>

inductive step :: "db \<Rightarrow> db \<Rightarrow> bool" where
  step_create: "create_task fromisoformat now payload d = (Inr r, d') \<Longrightarrow> step d d'"
| step_update: "update_task fromisoformat now tid upd d = (Inr r, d') \<Longrightarrow> step d d'"
| step_delete: "delete_task py_now db_now tid d = (Inr u, d') \<Longrightarrow> step d d'"

definition reachable :: "db \<Rightarrow> bool" where
  "reachable d \<longleftrightarrow> step\<^sup>*\<^sup>* empty_db d"

subsection \<open>What the tag store guarantees\<close>

text \<open>
  The postcondition of \<^verbatim>\<open>_get_or_create_tags\<close> that the proofs below carry through
  the loop: it writes to \<^verbatim>\<open>tags\<close> only, by appending, keeps ids and names unique, and
  returns one stored tag for each name, in the order of the names.
\<close>

definition tag_store_post :: "db \<Rightarrow> string list \<Rightarrow> error + tag list \<Rightarrow> db \<Rightarrow> bool" where
  "tag_store_post d names r d' \<longleftrightarrow>
     tasks d' = tasks d \<and> task_tags d' = task_tags d \<and>
     (\<exists>new. tags d' = tags d @ new) \<and>
     (distinct (map tag_id (tags d)) \<longrightarrow> distinct (map tag_id (tags d'))) \<and>
     (distinct (map tag_name (tags d)) \<longrightarrow> distinct (map tag_name (tags d'))) \<and>
     (\<forall>gs. r = Inr gs \<longrightarrow> map tag_name gs = names \<and> set gs \<subseteq> set (tags d'))"

subsection \<open>A database to run the handlers on\<close>

text \<open>
  Three tasks created at times 10, 11 and 12, the third deleted at time 20; two tags.
\<close>

definition ex_fromisoformat :: "string \<Rightarrow> date option" where
  "ex_fromisoformat s = (if s = ''2030-01-01'' then Some (Date 2030 1 1) else None)"

definition ex_task :: "nat \<Rightarrow> string \<Rightarrow> int \<Rightarrow> timestamp \<Rightarrow> task" where
  "ex_task i ttl p ts =
     \<lparr>task_id = i, title = ttl, description = None, priority = p,
      due_date = Date 2030 1 1, completed = False, is_deleted = False,
      deleted_at = None, created_at = ts, updated_at = ts\<rparr>"

definition ex_create :: "string \<Rightarrow> int \<Rightarrow> string list option \<Rightarrow> task_create" where
  "ex_create ttl p names =
     \<lparr>c_title = ttl, c_description = None, c_priority = p,
      c_due_date = ''2030-01-01'', c_tags = names\<rparr>"

definition ex_work :: tag where
  "ex_work = \<lparr>tag_id = 1, tag_name = ''work''\<rparr>"

definition ex_urgent :: tag where
  "ex_urgent = \<lparr>tag_id = 2, tag_name = ''urgent''\<rparr>"

definition ex_db :: db where
  "ex_db =
     \<lparr>tasks = [ex_task 1 ''A'' 5 10, ex_task 2 ''B'' 3 11,
               (ex_task 3 ''C'' 5 12)\<lparr>is_deleted := True, deleted_at := Some 20,
                                       updated_at := 21\<rparr>],
      tags = [ex_work, ex_urgent],
      task_tags = [(1, 1), (1, 2), (2, 2)]\<rparr>"

section \<open>Properties\<close>

lemma max_id_ge: "x \<in> set xs \<Longrightarrow> x \<le> max_id xs"
  by (induction xs) auto

lemma next_id_fresh: "next_id xs \<notin> set xs"
  using max_id_ge [of "next_id xs" xs] by (auto simp: next_id_def)

subsection \<open>Looking a row up by its key\<close>

lemma filter_key_empty:
  "\<forall>x\<in>set xs. \<not> (f x = k \<and> P x) \<Longrightarrow> filter (\<lambda>x. f x = k \<and> P x) xs = []"
  by (induction xs) auto

lemma filter_key_single:
  "distinct (map f xs) \<Longrightarrow> x \<in> set xs \<Longrightarrow> f x = k \<Longrightarrow> P x
     \<Longrightarrow> filter (\<lambda>x. f x = k \<and> P x) xs = [x]"
proof (induction xs)
  case Nil
  then show ?case by simp
next
  case (Cons y ys)
  show ?case
  proof (cases "y = x")
    case True
    from Cons.prems True have "f x \<notin> f ` set ys" by simp
    with Cons.prems(3) have "\<forall>z\<in>set ys. f z \<noteq> k" by (metis image_eqI)
    then have "filter (\<lambda>x. f x = k \<and> P x) ys = []" by (simp add: filter_key_empty)
    with True Cons.prems show ?thesis by simp
  next
    case False
    with Cons.prems have "x \<in> set ys" "f y \<noteq> k" by (auto simp: image_iff)
    with Cons show ?thesis by simp
  qed
qed

lemma filter_name_single:
  "distinct (map f xs) \<Longrightarrow> x \<in> set xs \<Longrightarrow> filter (\<lambda>y. f y = f x) xs = [x]"
  using filter_key_single [of f xs x "f x" "\<lambda>_. True"] by simp

subsection \<open>The tag store\<close>

lemma tag_store_post_found:
  assumes f: "filter (\<lambda>g. tag_name g = name) (tags d) = [g]"
    and rec: "tag_store_post d names r1 d2"
    and res: "(r, d') = (case (r1, d2) of (Inl e, d2) \<Rightarrow> (Inl e, d2)
                          | (Inr gs, d2) \<Rightarrow> (Inr (g # gs), d2))"
  shows "tag_store_post d (name # names) r d'"
proof -
  from f have "g \<in> set (filter (\<lambda>g. tag_name g = name) (tags d))" by simp
  then have g: "g \<in> set (tags d)" "tag_name g = name" by simp_all
  from res have d': "d' = d2" by (cases r1) auto
  from rec obtain new where new: "tags d2 = tags d @ new" by (auto simp: tag_store_post_def)
  with g have "g \<in> set (tags d2)" by simp
  with rec res g d' show ?thesis
    by (cases r1) (auto simp: tag_store_post_def)
qed

lemma tag_store_post_created:
  assumes f: "filter (\<lambda>g. tag_name g = name) (tags d) = []"
    and g: "g = \<lparr>tag_id = next_id (map tag_id (tags d)), tag_name = name\<rparr>"
    and rec: "tag_store_post (d\<lparr>tags := tags d @ [g]\<rparr>) names r1 d2"
    and res: "(r, d') = (case (r1, d2) of (Inl e, d2) \<Rightarrow> (Inl e, d2)
                          | (Inr gs, d2) \<Rightarrow> (Inr (g # gs), d2))"
  shows "tag_store_post d (name # names) r d'"
proof -
  from res have d': "d' = d2" by (cases r1) auto
  from rec obtain new where new: "tags d2 = (tags d @ [g]) @ new"
    by (auto simp: tag_store_post_def)
  then have in2: "g \<in> set (tags d2)" by simp
  from f have "\<forall>x\<in>set (tags d). tag_name x \<noteq> name" by (simp add: filter_empty_conv)
  then have fresh_name: "name \<notin> tag_name ` set (tags d)" by auto
  have fresh_id: "tag_id g \<notin> tag_id ` set (tags d)"
    using next_id_fresh [of "map tag_id (tags d)"] g by simp
  have ids: "distinct (map tag_id (tags d)) \<longrightarrow> distinct (map tag_id (tags d2))"
    using rec fresh_id by (simp add: tag_store_post_def)
  have names: "distinct (map tag_name (tags d)) \<longrightarrow> distinct (map tag_name (tags d2))"
    using rec fresh_name g by (simp add: tag_store_post_def)
  have ex: "\<exists>new'. tags d2 = tags d @ new'" using new by simp
  have frame: "tasks d2 = tasks d \<and> task_tags d2 = task_tags d"
    using rec by (simp add: tag_store_post_def)
  have ret: "\<forall>gs. r = Inr gs \<longrightarrow> map tag_name gs = name # names \<and> set gs \<subseteq> set (tags d2)"
    using rec res in2 g by (cases r1) (auto simp: tag_store_post_def)
  from d' ids names ex frame ret show ?thesis
    unfolding tag_store_post_def by blast
qed

lemma get_or_create_tags_post:
  "get_or_create_tags d names = (r, d') \<Longrightarrow> tag_store_post d names r d'"
proof (induction names arbitrary: d r d')
  case Nil
  then show ?case by (auto simp: tag_store_post_def)
next
  case (Cons name names)
  note IH = Cons.IH and run = Cons.prems
  show ?case
  proof (cases "filter (\<lambda>g. tag_name g = name) (tags d)")
    case no_row: Nil
    show ?thesis
    proof (cases "100 < length name")
      case True
      with no_row run show ?thesis by (auto simp: tag_store_post_def)
    next
      case False
      define g where "g = \<lparr>tag_id = next_id (map tag_id (tags d)), tag_name = name\<rparr>"
      obtain r1 d2 where rec: "get_or_create_tags (d\<lparr>tags := tags d @ [g]\<rparr>) names = (r1, d2)"
        by (cases "get_or_create_tags (d\<lparr>tags := tags d @ [g]\<rparr>) names")
      from no_row False rec run
      have "(r, d') = (case (r1, d2) of (Inl e, d2) \<Rightarrow> (Inl e, d2)
                        | (Inr gs, d2) \<Rightarrow> (Inr (g # gs), d2))"
        by (cases r1) (auto simp: g_def Let_def)
      with tag_store_post_created [OF no_row g_def IH [OF rec]] show ?thesis .
    qed
  next
    case some_row: (Cons g rest)
    show ?thesis
    proof (cases rest)
      case Nil
      obtain r1 d2 where rec: "get_or_create_tags d names = (r1, d2)"
        by (cases "get_or_create_tags d names")
      from some_row Nil have f: "filter (\<lambda>g. tag_name g = name) (tags d) = [g]" by simp
      from f rec run
      have "(r, d') = (case (r1, d2) of (Inl e, d2) \<Rightarrow> (Inl e, d2)
                        | (Inr gs, d2) \<Rightarrow> (Inr (g # gs), d2))"
        by (cases r1) auto
      with tag_store_post_found [OF f IH [OF rec]] show ?thesis .
    next
      case (Cons h rest')
      with some_row run show ?thesis by (auto simp: tag_store_post_def)
    qed
  qed
qed

subsection \<open>\<^verbatim>\<open>delete_task\<close>\<close>








subsection \<open>\<^verbatim>\<open>list_tasks\<close>\<close>

lemma split_comma_not_Nil: "split_comma s \<noteq> []"
  by (induction s) (auto split: list.splits)

lemma split_comma_chars:
  "w \<in> set (split_comma s) \<Longrightarrow> x \<in> set w \<Longrightarrow> x \<in> set s \<and> x \<noteq> CHR '',''"
proof (induction s arbitrary: w)
  case Nil
  then show ?case by simp
next
  case (Cons c cs)
  show ?case
  proof (cases "c = CHR '',''")
    case True
    with Cons.prems have "w \<in> set (split_comma cs)" by auto
    with Cons.IH Cons.prems(2) show ?thesis by auto
  next
    case False
    obtain v vs where sp: "split_comma cs = v # vs"
      using split_comma_not_Nil [of cs] by (cases "split_comma cs") auto
    with False Cons.prems(1) have "w = c # v \<or> w \<in> set vs" by simp
    then show ?thesis
    proof
      assume "w = c # v"
      with Cons.prems(2) have "x = c \<or> x \<in> set v" by simp
      with False Cons.IH [of v] sp show ?thesis by auto
    next
      assume "w \<in> set vs"
      with Cons.IH [of w] sp Cons.prems(2) show ?thesis by simp
    qed
  qed
qed

lemma strip_blank: "\<forall>c\<in>set w. isspace c \<Longrightarrow> strip w = []"
  by (auto simp: strip_def dest: set_dropWhileD)

lemma parse_tag_names_blank:
  assumes "\<forall>c\<in>set s. c = CHR '','' \<or> isspace c"
  shows "parse_tag_names s = []"
proof -
  have "strip w = []" if "w \<in> set (split_comma s)" for w
  proof (rule strip_blank, rule ballI)
    fix x assume "x \<in> set w"
    with that split_comma_chars have "x \<in> set s \<and> x \<noteq> CHR '',''" by blast
    with assms show "isspace x" by blast
  qed
  then have "filter (\<lambda>t. strip t \<noteq> []) (split_comma s) = []"
    by (simp add: filter_empty_conv)
  then show ?thesis by (simp add: parse_tag_names_def)
qed

text \<open>
  C10. A \<^verbatim>\<open>tags\<close> query string made of commas and whitespace only (the empty string
  included) yields no tag name, the tag filter is not applied, and \<open>list_tasks\<close> answers
  as it does without the parameter.
\<close>

theorem blank_tags_filter_dropped:
  assumes "\<forall>ch\<in>set s. ch = CHR '','' \<or> isspace ch"
  shows "list_tasks completed_q priority_q (Some s) limit offset d =
         list_tasks completed_q priority_q None limit offset d"
  using parse_tag_names_blank [OF assms]
  by (simp add: list_tasks_def select_tasks_def Let_def)

theorem blank_tags_filter_dropped_witness:
  "isspace CHR '' '' \<and> set '' , '' = {CHR '' '', CHR '',''} \<and>
   list_tasks None (Some 5) (Some '' , '') 20 0 ex_db = list_tasks None (Some 5) None 20 0 ex_db \<and>
   map (task_id \<circ> fst) (p_tasks (list_tasks None (Some 5) (Some '' , '') 20 0 ex_db)) = [1]"
proof -
  have h: "\<forall>ch\<in>set '' , ''. ch = CHR '','' \<or> isspace ch" by (simp add: isspace_def)
  have v: "map (task_id \<circ> fst) (p_tasks (list_tasks None (Some 5) None 20 0 ex_db)) = [1]"
    by (simp add: list_tasks_def select_tasks_def base_filters_def
          order_by_created_at_desc_def tags_of_def ex_db_def ex_task_def ex_work_def ex_urgent_def)
  have sp: "isspace CHR '' ''" "set '' , '' = {CHR '' '', CHR '',''}"
    by (auto simp: isspace_def)
  from sp v blank_tags_filter_dropped [OF h, of None "Some 5" 20 0 ex_db] show ?thesis by simp
qed

lemma tags_of_iff:
  "g \<in> set (tags_of d tid) \<longleftrightarrow> g \<in> set (tags d) \<and> (tid, tag_id g) \<in> set (task_tags d)"
  by (auto simp: tags_of_def)

lemma parse_tag_names_Nil: "parse_tag_names [] = []"
  by (simp add: parse_tag_names_def strip_def)

lemma join_set:
  "set [t. t \<leftarrow> q, (a, b) \<leftarrow> tt, a = task_id t, g \<leftarrow> tg, tag_id g = b, tag_name g \<in> N] =
     {t \<in> set q. \<exists>g\<in>set tg. (task_id t, tag_id g) \<in> set tt \<and> tag_name g \<in> N}"
proof (intro set_eqI iffI)
  fix t
  assume "t \<in> set [t. t \<leftarrow> q, (a, b) \<leftarrow> tt, a = task_id t, g \<leftarrow> tg, tag_id g = b, tag_name g \<in> N]"
  then show "t \<in> {t \<in> set q. \<exists>g\<in>set tg. (task_id t, tag_id g) \<in> set tt \<and> tag_name g \<in> N}"
    by (auto split: if_splits)
next
  fix t
  assume "t \<in> {t \<in> set q. \<exists>g\<in>set tg. (task_id t, tag_id g) \<in> set tt \<and> tag_name g \<in> N}"
  then obtain g where "t \<in> set q" "g \<in> set tg" "(task_id t, tag_id g) \<in> set tt" "tag_name g \<in> N"
    by blast
  then show "t \<in> set [t. t \<leftarrow> q, (a, b) \<leftarrow> tt, a = task_id t, g \<leftarrow> tg, tag_id g = b, tag_name g \<in> N]"
    by (force intro!: bexI [of _ t] bexI [of _ "(task_id t, tag_id g)"] bexI [of _ g])
qed

lemma select_tasks_set:
  "set (select_tasks c p tq d) =
     {t \<in> set (tasks d). base_filters c p t \<and>
        (requested_tags tq = [] \<or>
         (\<exists>g\<in>set (tags_of d (task_id t)). tag_name g \<in> set (requested_tags tq)))}"
proof (cases "requested_tags tq = []")
  case True
  then show ?thesis
    by (auto simp: select_tasks_def requested_tags_def Let_def split: option.splits if_splits)
next
  case False
  then obtain s where s: "tq = Some s" "s \<noteq> []" "parse_tag_names s \<noteq> []"
    by (auto simp: requested_tags_def split: option.splits if_splits)
  then have req: "requested_tags tq = parse_tag_names s" by (simp add: requested_tags_def)
  let ?q = "filter (base_filters c p) (tasks d)"
  let ?N = "set (parse_tag_names s)"
  from s have "set (select_tasks c p tq d) =
      set [t. t \<leftarrow> ?q, (a, b) \<leftarrow> task_tags d, a = task_id t,
              g \<leftarrow> tags d, tag_id g = b, tag_name g \<in> ?N]"
    by (simp add: select_tasks_def Let_def)
  also have "\<dots> = {t \<in> set ?q. \<exists>g\<in>set (tags d).
                       (task_id t, tag_id g) \<in> set (task_tags d) \<and> tag_name g \<in> ?N}"
    by (rule join_set)
  also have "\<dots> = {t \<in> set (tasks d). base_filters c p t \<and>
        (requested_tags tq = [] \<or>
         (\<exists>g\<in>set (tags_of d (task_id t)). tag_name g \<in> set (requested_tags tq)))}"
    using False req by (auto simp: tags_of_iff)
  finally show ?thesis .
qed

lemma select_tasks_distinct:
  "distinct (tasks d) \<Longrightarrow> distinct (select_tasks c p tq d)"
  by (auto simp: select_tasks_def Let_def split: option.splits)

lemma select_tasks_tags_distinct:
  "parse_tag_names s \<noteq> [] \<Longrightarrow> distinct (select_tasks c p (Some s) d)"
  using parse_tag_names_Nil by (auto simp: select_tasks_def Let_def)

lemma page_tasks:
  "map fst (p_tasks (list_tasks c p tq lim off d)) =
     remdups (take lim (drop off (order_by_created_at_desc (select_tasks c p tq d))))"
  by (simp add: list_tasks_def Let_def comp_def)

lemma page_set_subset:
  "fst ` set (p_tasks (list_tasks c p tq lim off d)) \<subseteq> set (select_tasks c p tq d)"
proof -
  have "set (map fst (p_tasks (list_tasks c p tq lim off d))) \<subseteq> set (select_tasks c p tq d)"
    unfolding page_tasks
    by (auto simp: order_by_created_at_desc_def dest!: in_set_takeD in_set_dropD)
  then show ?thesis by simp
qed

lemma schema_ok_distinct_tasks: "schema_ok d \<Longrightarrow> distinct (tasks d)"
  by (simp add: schema_ok_def distinct_map)

lemma page_tasks_distinct_query:
  assumes "distinct (select_tasks c p tq d)"
  shows "map fst (p_tasks (list_tasks c p tq lim off d)) =
           take lim (drop off (order_by_created_at_desc (select_tasks c p tq d)))"
proof -
  from assms have "distinct (take lim (drop off (order_by_created_at_desc (select_tasks c p tq d))))"
    by (simp add: order_by_created_at_desc_def)
  then show ?thesis by (simp add: page_tasks)
qed

lemma total_length: "p_total (list_tasks c p tq lim off d) = length (select_tasks c p tq d)"
  by (simp add: list_tasks_def Let_def)



text \<open>
  C4. With tag names requested, the tasks that \<open>list_tasks\<close> counts are exactly the
  tasks that are not deleted, pass the \<^verbatim>\<open>completed\<close> and \<^verbatim>\<open>priority\<close> filters and
  whose tag names meet the requested names. Every task of the page is one of them, no task
  is on the page twice, and a page that starts at offset 0 with a limit of at least the
  total holds all of them.
\<close>

theorem tags_filter_matches_any_once:
  assumes "schema_ok d" and "requested_tags (Some s) \<noteq> []"
  shows "p_total (list_tasks c p (Some s) lim off d) =
           card {t \<in> set (tasks d). base_filters c p t \<and>
                   tag_name ` set (tags_of d (task_id t)) \<inter> set (requested_tags (Some s)) \<noteq> {}} \<and>
         fst ` set (p_tasks (list_tasks c p (Some s) lim off d)) \<subseteq>
           {t \<in> set (tasks d). base_filters c p t \<and>
                   tag_name ` set (tags_of d (task_id t)) \<inter> set (requested_tags (Some s)) \<noteq> {}} \<and>
         distinct (map (task_id \<circ> fst) (p_tasks (list_tasks c p (Some s) lim off d))) \<and>
         (off = 0 \<and> p_total (list_tasks c p (Some s) lim off d) \<le> lim \<longrightarrow>
            fst ` set (p_tasks (list_tasks c p (Some s) lim off d)) =
              {t \<in> set (tasks d). base_filters c p t \<and>
                   tag_name ` set (tags_of d (task_id t)) \<inter> set (requested_tags (Some s)) \<noteq> {}})"
proof -
  let ?q = "select_tasks c p (Some s) d"
  let ?r = "list_tasks c p (Some s) lim off d"
  let ?M = "{t \<in> set (tasks d). base_filters c p t \<and>
                   tag_name ` set (tags_of d (task_id t)) \<inter> set (requested_tags (Some s)) \<noteq> {}}"
  have M: "set ?q = ?M"
    using assms(2) by (auto simp: select_tasks_set)
  have dq: "distinct ?q"
    using assms(1) by (simp add: schema_ok_distinct_tasks select_tasks_distinct)
  have total: "p_total ?r = card ?M"
    using dq M by (simp add: total_length distinct_card [symmetric])
  have sub: "fst ` set (p_tasks ?r) \<subseteq> ?M"
    using page_set_subset [of c p "Some s" lim off d] M by simp
  have ids: "distinct (map (task_id \<circ> fst) (p_tasks ?r))"
  proof -
    have "distinct (map fst (p_tasks ?r))" by (simp add: page_tasks)
    moreover have "inj_on task_id (set (map fst (p_tasks ?r)))"
    proof (rule inj_on_subset)
      show "inj_on task_id (set (tasks d))"
        using assms(1) by (simp add: schema_ok_def distinct_map)
      show "set (map fst (p_tasks ?r)) \<subseteq> set (tasks d)" using sub by auto
    qed
    ultimately have "distinct (map task_id (map fst (p_tasks ?r)))"
      using distinct_map [of task_id "map fst (p_tasks ?r)"] by blast
    then show ?thesis by (simp only: map_map)
  qed
  have whole: "off = 0 \<and> p_total ?r \<le> lim \<longrightarrow> fst ` set (p_tasks ?r) = ?M"
  proof
    assume h: "off = 0 \<and> p_total ?r \<le> lim"
    have "set (map fst (p_tasks ?r)) = set ?q"
      unfolding page_tasks_distinct_query [OF dq]
      using h by (simp add: total_length order_by_created_at_desc_def)
    with M show "fst ` set (p_tasks ?r) = ?M" by simp
  qed
  from total sub ids whole show ?thesis by blast
qed

theorem tags_filter_matches_any_once_witness:
  "schema_ok ex_db \<and> requested_tags (Some ''urgent, WORK'') = [''urgent'', ''work''] \<and>
   requested_tags (Some ''urgent, WORK'') \<noteq> [] \<and>
   (0::nat) = 0 \<and> p_total (list_tasks None None (Some ''urgent, WORK'') 20 0 ex_db) \<le> 20 \<and>
   p_total (list_tasks None None (Some ''urgent, WORK'') 20 0 ex_db) = 2 \<and>
   map (task_id \<circ> fst) (p_tasks (list_tasks None None (Some ''urgent, WORK'') 20 0 ex_db)) = [2, 1] \<and>
   distinct (map (task_id \<circ> fst) (p_tasks (list_tasks None None (Some ''urgent, WORK'') 20 0 ex_db))) \<and>
   fst ` set (p_tasks (list_tasks None None (Some ''urgent, WORK'') 20 0 ex_db)) =
     {t \<in> set (tasks ex_db). base_filters None None t \<and>
        tag_name ` set (tags_of ex_db (task_id t)) \<inter> set (requested_tags (Some ''urgent, WORK'')) \<noteq> {}}"
proof -
  have s: "schema_ok ex_db" by (simp add: schema_ok_def ex_db_def ex_task_def ex_work_def ex_urgent_def)
  have r: "requested_tags (Some ''urgent, WORK'') = [''urgent'', ''work'']"
    by code_simp
  then have n: "requested_tags (Some ''urgent, WORK'') \<noteq> []" by simp
  have v: "map (task_id \<circ> fst) (p_tasks (list_tasks None None (Some ''urgent, WORK'') 20 0 ex_db)) = [2, 1]"
    by code_simp
  have t: "p_total (list_tasks None None (Some ''urgent, WORK'') 20 0 ex_db) = 2"
    by code_simp
  from s r n v t tags_filter_matches_any_once [OF s n, of None None 20 0]
  show ?thesis by simp
qed

subsection \<open>The flush of \<^verbatim>\<open>task.tags\<close> and the handlers that write\<close>

lemma set_task_tags_frame:
  "tasks (set_task_tags tid new d) = tasks d" "tags (set_task_tags tid new d) = tags d"
  by (simp_all add: set_task_tags_def Let_def)

lemma set_task_tags_distinct:
  assumes "distinct (task_tags d)" "set new \<subseteq> set (tags d)"
  shows "distinct (task_tags (set_task_tags tid new d))"
proof -
  let ?original = "map tag_id (tags_of d tid)"
  let ?added = "remdups (filter (\<lambda>g. g \<notin> set ?original) (map tag_id new))"
  have fresh: "(tid, b) \<notin> set (task_tags d)" if "b \<in> set ?added" for b
  proof
    assume row: "(tid, b) \<in> set (task_tags d)"
    from that obtain g where g: "g \<in> set new" "tag_id g = b" "b \<notin> set ?original" by auto
    with assms(2) row have "g \<in> set (tags_of d tid)" by (auto simp: tags_of_iff)
    with g show False by auto
  qed
  have "distinct (map (Pair tid) ?added)" by (simp add: distinct_map inj_on_def)
  with assms(1) fresh show ?thesis
    by (auto simp: set_task_tags_def Let_def)
qed

lemma set_task_tags_result:
  assumes sub: "set new \<subseteq> set (tags d)" and ids: "distinct (map tag_id (tags d))"
  shows "set (tags_of (set_task_tags tid new d) tid) = set new"
proof -
  let ?original = "map tag_id (tags_of d tid)"
  let ?current = "map tag_id new"
  let ?added = "remdups (filter (\<lambda>g. g \<notin> set ?original) ?current)"
  let ?deleted = "filter (\<lambda>g. g \<notin> set ?current) ?original"
  let ?d' = "set_task_tags tid new d"
  have rows: "set (task_tags ?d') =
      {(a, b) \<in> set (task_tags d). \<not> (a = tid \<and> b \<in> set ?deleted)} \<union> Pair tid ` set ?added"
    by (auto simp: set_task_tags_def Let_def)
  have inj: "g = h" if "g \<in> set (tags d)" "h \<in> set (tags d)" "tag_id g = tag_id h" for g h
    using ids that by (auto simp: distinct_map inj_on_def)
  show ?thesis
  proof (intro set_eqI iffI)
    fix g assume "g \<in> set (tags_of ?d' tid)"
    then have g: "g \<in> set (tags d)" and row: "(tid, tag_id g) \<in> set (task_tags ?d')"
      by (simp_all add: tags_of_iff set_task_tags_frame)
    from row rows have "((tid, tag_id g) \<in> set (task_tags d) \<and> tag_id g \<notin> set ?deleted)
                        \<or> tag_id g \<in> set ?added" by auto
    then have "tag_id g \<in> set ?current"
    proof
      assume h: "(tid, tag_id g) \<in> set (task_tags d) \<and> tag_id g \<notin> set ?deleted"
      with g have "g \<in> set (tags_of d tid)" by (simp add: tags_of_iff)
      then have "tag_id g \<in> set ?original" by simp
      with h show ?thesis by auto
    next
      assume "tag_id g \<in> set ?added"
      then show ?thesis by auto
    qed
    then obtain h where h: "h \<in> set new" "tag_id h = tag_id g" by auto
    with sub g inj [of h g] show "g \<in> set new" by auto
  next
    fix g assume gn: "g \<in> set new"
    with sub have g: "g \<in> set (tags d)" by auto
    from gn have cur: "tag_id g \<in> set ?current" by simp
    have "(tid, tag_id g) \<in> set (task_tags ?d')"
    proof (cases "tag_id g \<in> set ?original")
      case True
      then obtain h where h: "h \<in> set (tags_of d tid)" "tag_id h = tag_id g" by auto
      then have "h \<in> set (tags d)" "(tid, tag_id h) \<in> set (task_tags d)"
        by (simp_all add: tags_of_iff)
      with h cur rows show ?thesis by auto
    next
      case False
      with cur have "tag_id g \<in> set ?added" by simp
      with rows show ?thesis by blast
    qed
    with g show "g \<in> set (tags_of ?d' tid)"
      by (simp add: tags_of_iff set_task_tags_frame)
  qed
qed

lemma flush_task_keeps:
  assumes "flush_task now t upd dd = Inr t'"
  shows "task_id t' = task_id t" "is_deleted t' = is_deleted t" "deleted_at t' = deleted_at t"
    "created_at t' = created_at t" "\<not> null_written upd"
  using assms by (auto simp: flush_task_def set_fields_def Let_def split: if_splits)

lemma update_tags_value_post:
  assumes "update_tags_value d v = (r, d1)"
  shows "tasks d1 = tasks d" "task_tags d1 = task_tags d" "\<exists>new. tags d1 = tags d @ new"
    "distinct (map tag_id (tags d)) \<Longrightarrow> distinct (map tag_id (tags d1))"
    "distinct (map tag_name (tags d)) \<Longrightarrow> distinct (map tag_name (tags d1))"
    "r = Inr (Some gs) \<Longrightarrow> set gs \<subseteq> set (tags d1)"
    "v = None \<Longrightarrow> r = Inr None \<and> d1 = d"
    "v = Some None \<Longrightarrow> r = Inr (Some []) \<and> d1 = d"
    "r = Inr None \<Longrightarrow> v = None"
proof -
  have post: "tag_store_post d names r' d'" if "get_or_create_tags d names = (r', d')"
    for names r' d' using that by (rule get_or_create_tags_post)
  show "tasks d1 = tasks d" "task_tags d1 = task_tags d" "\<exists>new. tags d1 = tags d @ new"
    "distinct (map tag_id (tags d)) \<Longrightarrow> distinct (map tag_id (tags d1))"
    "distinct (map tag_name (tags d)) \<Longrightarrow> distinct (map tag_name (tags d1))"
    "r = Inr (Some gs) \<Longrightarrow> set gs \<subseteq> set (tags d1)"
    "v = None \<Longrightarrow> r = Inr None \<and> d1 = d"
    "v = Some None \<Longrightarrow> r = Inr (Some []) \<and> d1 = d"
    "r = Inr None \<Longrightarrow> v = None"
    using assms post
    by (auto simp: update_tags_value_def tag_store_post_def
             split: option.splits prod.splits sum.splits)
qed

lemma update_task_success:
  assumes "update_task f now tid upd d = (Inr (t', gs'), d')"
  obtains t new_tags d1 dd where
    "filter (\<lambda>t. task_id t = tid \<and> \<not> is_deleted t) (tasks d) = [t]"
    "update_tags_value d (u_tags upd) = (Inr new_tags, d1)"
    "convert_due_date f (u_due_date upd) = Inr dd"
    "flush_task now t upd dd = Inr t'"
    "d' = (case new_tags of
             None \<Rightarrow> d1\<lparr>tasks := map (\<lambda>r. if task_id r = tid then t' else r) (tasks d1)\<rparr>
           | Some gs \<Rightarrow> set_task_tags tid gs
                (d1\<lparr>tasks := map (\<lambda>r. if task_id r = tid then t' else r) (tasks d1)\<rparr>))"
    "gs' = tags_of d' tid"
  using assms
  by (auto simp: update_task_def Let_def split: list.splits prod.splits sum.splits)

lemma create_task_success:
  assumes "create_task f now payload d = (Inr (t, gs'), d')"
  obtains dd gs d1 where
    "f (c_due_date payload) = Some dd"
    "(case c_tags payload of None \<Rightarrow> (Inr [], d)
      | Some names \<Rightarrow> if names = [] then (Inr [], d) else get_or_create_tags d names) = (Inr gs, d1)"
    "t = \<lparr>task_id = next_id (map task_id (tasks d1)), title = c_title payload,
          description = c_description payload, priority = c_priority payload, due_date = dd,
          completed = False, is_deleted = False, deleted_at = None,
          created_at = now, updated_at = now\<rparr>"
    "d' = set_task_tags (task_id t) gs (d1\<lparr>tasks := tasks d1 @ [t]\<rparr>)"
    "gs' = tags_of d' (task_id t)"
  using assms
  by (auto simp: create_task_def Let_def split: option.splits prod.splits sum.splits)

lemma delete_task_success:
  assumes "delete_task pn dn tid d = (Inr u, d')"
  obtains t k where
    "tid = int k"
    "filter (\<lambda>t. task_id t = k \<and> \<not> is_deleted t) (tasks d) = [t]"
    "d' = d\<lparr>tasks := map (\<lambda>r. if task_id r = k
              then t\<lparr>is_deleted := True, deleted_at := Some pn, updated_at := dn\<rparr> else r)
              (tasks d)\<rparr>"
proof -
  from assms obtain t where
    row: "filter (\<lambda>t. int (task_id t) = tid \<and> \<not> is_deleted t) (tasks d) = [t]"
    and d': "d' = d\<lparr>tasks := map (\<lambda>r. if int (task_id r) = tid
              then t\<lparr>is_deleted := True, deleted_at := Some pn, updated_at := dn\<rparr> else r)
              (tasks d)\<rparr>"
    by (auto simp: delete_task_def Let_def split: list.splits if_splits)
  from row have "t \<in> set (filter (\<lambda>t. int (task_id t) = tid \<and> \<not> is_deleted t) (tasks d))"
    by simp
  then have k: "tid = int (task_id t)" by simp
  from row d' show thesis
    unfolding k of_nat_eq_iff by (rule that [OF k])
qed

subsection \<open>The schema's constraints hold after every request\<close>

lemma task_ids_after_replace:
  "task_id t' = tid \<Longrightarrow>
     map task_id (map (\<lambda>r. if task_id r = tid then t' else r) ts) = map task_id ts"
  by (induction ts) auto

lemma schema_ok_replace:
  assumes "schema_ok d" "task_id t' = tid"
  shows "schema_ok (d\<lparr>tasks := map (\<lambda>r. if task_id r = tid then t' else r) (tasks d)\<rparr>)"
proof -
  have "distinct (map task_id (map (\<lambda>r. if task_id r = tid then t' else r) (tasks d)))"
    using assms by (simp only: task_ids_after_replace schema_ok_def)
  with assms(1) show ?thesis by (simp add: schema_ok_def)
qed

lemma schema_ok_create:
  assumes "schema_ok d" "create_task f now payload d = (Inr r, d')"
  shows "schema_ok d'"
proof -
  obtain t gs' where r: "r = (t, gs')" by (cases r)
  from assms(2) [unfolded r] obtain dd gs d1 where
    tags: "(case c_tags payload of None \<Rightarrow> (Inr [], d)
      | Some names \<Rightarrow> if names = [] then (Inr [], d) else get_or_create_tags d names) = (Inr gs, d1)"
    and t: "task_id t = next_id (map task_id (tasks d1))"
    and d': "d' = set_task_tags (task_id t) gs (d1\<lparr>tasks := tasks d1 @ [t]\<rparr>)"
    by (rule create_task_success) simp
  have post: "tag_store_post d (map tag_name gs) (Inr gs) d1"
  proof (cases "c_tags payload")
    case None
    with tags show ?thesis by (simp add: tag_store_post_def)
  next
    case (Some names)
    show ?thesis
    proof (cases "names = []")
      case True
      with Some tags show ?thesis by (simp add: tag_store_post_def)
    next
      case False
      with Some tags have run: "get_or_create_tags d names = (Inr gs, d1)" by simp
      from get_or_create_tags_post [OF run] have p: "tag_store_post d names (Inr gs) d1" .
      then have "map tag_name gs = names" by (simp add: tag_store_post_def)
      with p show ?thesis by simp
    qed
  qed
  from post assms(1) have s1: "schema_ok d1" and sub: "set gs \<subseteq> set (tags d1)"
    by (auto simp: tag_store_post_def schema_ok_def)
  let ?d2 = "d1\<lparr>tasks := tasks d1 @ [t]\<rparr>"
  have "task_id t \<notin> set (map task_id (tasks d1))"
    unfolding t by (rule next_id_fresh)
  with s1 have s2: "schema_ok ?d2" by (simp add: schema_ok_def)
  from sub have sub2: "set gs \<subseteq> set (tags ?d2)" by simp
  from s2 have "distinct (task_tags ?d2)" by (simp add: schema_ok_def)
  from set_task_tags_distinct [OF this sub2, of "task_id t"] s2 d'
  show ?thesis by (simp add: schema_ok_def set_task_tags_frame)
qed

lemma schema_ok_update:
  assumes "schema_ok d" "update_task f now tid upd d = (Inr r, d')"
  shows "schema_ok d'"
proof -
  obtain t' gs' where r: "r = (t', gs')" by (cases r)
  from assms(2) [unfolded r] obtain t new_tags d1 dd where
    tv: "update_tags_value d (u_tags upd) = (Inr new_tags, d1)"
    and fl: "flush_task now t upd dd = Inr t'"
    and row: "filter (\<lambda>t. task_id t = tid \<and> \<not> is_deleted t) (tasks d) = [t]"
    and d': "d' = (case new_tags of
             None \<Rightarrow> d1\<lparr>tasks := map (\<lambda>r. if task_id r = tid then t' else r) (tasks d1)\<rparr>
           | Some gs \<Rightarrow> set_task_tags tid gs
                (d1\<lparr>tasks := map (\<lambda>r. if task_id r = tid then t' else r) (tasks d1)\<rparr>))"
    by (rule update_task_success)
  from row have "t \<in> set (filter (\<lambda>t. task_id t = tid \<and> \<not> is_deleted t) (tasks d))" by simp
  then have "task_id t = tid" by simp
  with flush_task_keeps(1) [OF fl] have id: "task_id t' = tid" by simp
  let ?d2 = "d1\<lparr>tasks := map (\<lambda>r. if task_id r = tid then t' else r) (tasks d1)\<rparr>"
  from assms(1) update_tags_value_post(1,2,4,5) [OF tv]
  have s1: "schema_ok d1" by (simp add: schema_ok_def)
  then have s2: "schema_ok ?d2"
    using id by (rule schema_ok_replace)
  show ?thesis
  proof (cases new_tags)
    case None
    with d' s2 show ?thesis by simp
  next
    case (Some gs)
    from update_tags_value_post(6) [OF tv, of gs] Some have "set gs \<subseteq> set (tags ?d2)" by simp
    moreover from s2 have "distinct (task_tags ?d2)" by (simp add: schema_ok_def)
    ultimately have "distinct (task_tags (set_task_tags tid gs ?d2))"
      using set_task_tags_distinct by blast
    with s2 d' Some show ?thesis by (simp add: schema_ok_def set_task_tags_frame)
  qed
qed

lemma schema_ok_delete:
  assumes "schema_ok d" "delete_task pn dn tid d = (Inr u, d')"
  shows "schema_ok d'"
proof -
  from assms(2) obtain t k where
    row: "filter (\<lambda>t. task_id t = k \<and> \<not> is_deleted t) (tasks d) = [t]"
    and d': "d' = d\<lparr>tasks := map (\<lambda>r. if task_id r = k
              then t\<lparr>is_deleted := True, deleted_at := Some pn, updated_at := dn\<rparr> else r)
              (tasks d)\<rparr>"
    by (rule delete_task_success)
  from row have "t \<in> set (filter (\<lambda>t. task_id t = k \<and> \<not> is_deleted t) (tasks d))" by simp
  then have "task_id (t\<lparr>is_deleted := True, deleted_at := Some pn, updated_at := dn\<rparr>) = k"
    by simp
  from schema_ok_replace [OF assms(1) this] d' show ?thesis
    by simp
qed

lemma schema_ok_step: "step d d' \<Longrightarrow> schema_ok d \<Longrightarrow> schema_ok d'"
  by (induction rule: step.induct) (blast intro: schema_ok_create schema_ok_update schema_ok_delete)+

lemma schema_ok_steps: "step\<^sup>*\<^sup>* d d' \<Longrightarrow> schema_ok d \<Longrightarrow> schema_ok d'"
  by (induction rule: rtranclp_induct) (auto intro: schema_ok_step)

lemma schema_ok_empty: "schema_ok empty_db"
  by (simp add: schema_ok_def empty_db_def)

lemma reachable_schema_ok: "reachable d \<Longrightarrow> schema_ok d"
  unfolding reachable_def using schema_ok_steps schema_ok_empty by blast

subsection \<open>What a committed request does to the table of tasks\<close>

lemma live_row:
  assumes "filter (\<lambda>t. task_id t = tid \<and> \<not> is_deleted t) ts = [t]"
  shows "t \<in> set ts" "task_id t = tid" "\<not> is_deleted t"
proof -
  from assms have "t \<in> set (filter (\<lambda>t. task_id t = tid \<and> \<not> is_deleted t) ts)" by simp
  then show "t \<in> set ts" "task_id t = tid" "\<not> is_deleted t" by simp_all
qed

lemma step_tasks:
  assumes "step d d'"
  shows "(\<exists>t. tasks d' = tasks d @ [t] \<and> \<not> is_deleted t \<and> deleted_at t = None) \<or>
         (\<exists>t t' tid. filter (\<lambda>t. task_id t = tid \<and> \<not> is_deleted t) (tasks d) = [t] \<and>
              task_id t' = tid \<and>
              (deleted_at t = None \<longrightarrow> (\<not> is_deleted t' \<longleftrightarrow> deleted_at t' = None)) \<and>
              tasks d' = map (\<lambda>r. if task_id r = tid then t' else r) (tasks d))"
  using assms
proof (induction rule: step.induct)
  case (step_create fromisoformat now payload d r d')
  obtain t gs' where r: "r = (t, gs')" by (cases r)
  from step_create [unfolded r] obtain dd gs d1 where
    tags: "(case c_tags payload of None \<Rightarrow> (Inr [], d)
      | Some names \<Rightarrow> if names = [] then (Inr [], d) else get_or_create_tags d names) = (Inr gs, d1)"
    and t: "\<not> is_deleted t" "deleted_at t = None"
    and d': "d' = set_task_tags (task_id t) gs (d1\<lparr>tasks := tasks d1 @ [t]\<rparr>)"
    by (rule create_task_success) simp
  have "tasks d1 = tasks d"
  proof (cases "c_tags payload")
    case None
    with tags show ?thesis by simp
  next
    case (Some names)
    with tags get_or_create_tags_post [of d names "Inr gs" d1] show ?thesis
      by (auto simp: tag_store_post_def split: if_splits)
  qed
  with d' t have "tasks d' = tasks d @ [t] \<and> \<not> is_deleted t \<and> deleted_at t = None"
    by (simp add: set_task_tags_frame)
  then show ?case by - (rule disjI1, rule exI, assumption)
next
  case (step_update fromisoformat now tid upd d r d')
  obtain t' gs' where r: "r = (t', gs')" by (cases r)
  from step_update [unfolded r] obtain t new_tags d1 dd where
    tv: "update_tags_value d (u_tags upd) = (Inr new_tags, d1)"
    and fl: "flush_task now t upd dd = Inr t'"
    and row: "filter (\<lambda>t. task_id t = tid \<and> \<not> is_deleted t) (tasks d) = [t]"
    and d': "d' = (case new_tags of
             None \<Rightarrow> d1\<lparr>tasks := map (\<lambda>r. if task_id r = tid then t' else r) (tasks d1)\<rparr>
           | Some gs \<Rightarrow> set_task_tags tid gs
                (d1\<lparr>tasks := map (\<lambda>r. if task_id r = tid then t' else r) (tasks d1)\<rparr>))"
    by (rule update_task_success)
  from d' update_tags_value_post(1) [OF tv]
  have tasks: "tasks d' = map (\<lambda>r. if task_id r = tid then t' else r) (tasks d)"
    by (cases new_tags) (simp_all add: set_task_tags_frame)
  from flush_task_keeps [OF fl] live_row [OF row]
  have "task_id t' = tid" "\<not> is_deleted t'" "deleted_at t' = deleted_at t" by simp_all
  with row tasks
  have "filter (\<lambda>t. task_id t = tid \<and> \<not> is_deleted t) (tasks d) = [t] \<and>
        task_id t' = tid \<and>
        (deleted_at t = None \<longrightarrow> (\<not> is_deleted t' \<longleftrightarrow> deleted_at t' = None)) \<and>
        tasks d' = map (\<lambda>r. if task_id r = tid then t' else r) (tasks d)" by simp
  then show ?case by - (rule disjI2, (rule exI)+, assumption)
next
  case (step_delete py_now db_now tid d u d')
  from step_delete obtain t k where
    row: "filter (\<lambda>t. task_id t = k \<and> \<not> is_deleted t) (tasks d) = [t]"
    and d': "d' = d\<lparr>tasks := map (\<lambda>r. if task_id r = k
              then t\<lparr>is_deleted := True, deleted_at := Some py_now, updated_at := db_now\<rparr> else r)
              (tasks d)\<rparr>"
    by (rule delete_task_success)
  let ?t' = "t\<lparr>is_deleted := True, deleted_at := Some py_now, updated_at := db_now\<rparr>"
  from live_row [OF row] have "task_id ?t' = k" "is_deleted ?t'" "deleted_at ?t' \<noteq> None"
    by simp_all
  with row d'
  have "filter (\<lambda>t. task_id t = k \<and> \<not> is_deleted t) (tasks d) = [t] \<and>
        task_id ?t' = k \<and>
        (deleted_at t = None \<longrightarrow> (\<not> is_deleted ?t' \<longleftrightarrow> deleted_at ?t' = None)) \<and>
        tasks d' = map (\<lambda>r. if task_id r = k then ?t' else r) (tasks d)" by simp
  then show ?case by - (rule disjI2, (rule exI)+, assumption)
qed

lemma step_tasks_cases [consumes 1, case_names added replaced]:
  assumes "step d d'"
  obtains (added) t where "tasks d' = tasks d @ [t]" "\<not> is_deleted t" "deleted_at t = None"
  | (replaced) t t' tid where
      "filter (\<lambda>t. task_id t = tid \<and> \<not> is_deleted t) (tasks d) = [t]"
      "task_id t' = tid"
      "deleted_at t = None \<longrightarrow> (\<not> is_deleted t' \<longleftrightarrow> deleted_at t' = None)"
      "tasks d' = map (\<lambda>r. if task_id r = tid then t' else r) (tasks d)"
proof -
  from step_tasks [OF assms] show thesis
  proof (elim disjE exE conjE)
    fix t assume "tasks d' = tasks d @ [t]" "\<not> is_deleted t" "deleted_at t = None"
    then show thesis by (rule added)
  next
    fix t t' tid
    assume "filter (\<lambda>t. task_id t = tid \<and> \<not> is_deleted t) (tasks d) = [t]"
      "task_id t' = tid"
      "deleted_at t = None \<longrightarrow> (\<not> is_deleted t' \<longleftrightarrow> deleted_at t' = None)"
      "tasks d' = map (\<lambda>r. if task_id r = tid then t' else r) (tasks d)"
    then show thesis by (rule replaced)
  qed
qed

lemma deleted_flag_step:
  assumes "step d d'" and inv: "\<forall>t\<in>set (tasks d). \<not> is_deleted t \<longleftrightarrow> deleted_at t = None"
  shows "\<forall>t\<in>set (tasks d'). \<not> is_deleted t \<longleftrightarrow> deleted_at t = None"
  using assms(1)
proof (cases rule: step_tasks_cases)
  case (added t)
  with inv show ?thesis by auto
next
  case (replaced t t' tid)
  from live_row [OF replaced(1)] inv have "deleted_at t = None" by blast
  with replaced(3) have "\<not> is_deleted t' \<longleftrightarrow> deleted_at t' = None" by simp
  with inv replaced(4) show ?thesis by auto
qed

lemma deleted_row_stays:
  assumes "step d d'" "schema_ok d" "t \<in> set (tasks d)" "is_deleted t"
  shows "t \<in> set (tasks d')"
  using assms(1)
proof (cases rule: step_tasks_cases)
  case (added u)
  with assms(3) show ?thesis by simp
next
  case (replaced u u' tid)
  from assms(2) have inj: "inj_on task_id (set (tasks d))"
    by (simp add: schema_ok_def distinct_map)
  have "task_id t \<noteq> tid"
  proof
    assume "task_id t = tid"
    with live_row [OF replaced(1)] assms(3) inj have "t = u" by (auto simp: inj_on_def)
    with live_row(3) [OF replaced(1)] assms(4) show False by simp
  qed
  then have "t = (\<lambda>r. if task_id r = tid then u' else r) t" by simp
  then have "t \<in> (\<lambda>r. if task_id r = tid then u' else r) ` set (tasks d)"
    using assms(3) by (rule image_eqI)
  with replaced(4) show ?thesis by simp
qed

lemma deleted_row_stays_steps:
  assumes "step\<^sup>*\<^sup>* d d'" "schema_ok d" "t \<in> set (tasks d)" "is_deleted t"
  shows "t \<in> set (tasks d')"
  using assms
proof (induction rule: rtranclp_induct)
  case base
  then show ?case by simp
next
  case (step y z)
  from step.hyps(1) step.prems(1) have "schema_ok y" by (rule schema_ok_steps)
  with step show ?case by (blast intro: deleted_row_stays)
qed

lemma get_task_deleted:
  assumes "schema_ok d" "t \<in> set (tasks d)" "is_deleted t"
  shows "get_task (task_id t) d = Inl NotFound"
proof -
  from assms(1) have inj: "inj_on task_id (set (tasks d))"
    by (simp add: schema_ok_def distinct_map)
  have "\<forall>u\<in>set (tasks d). \<not> (task_id u = task_id t \<and> \<not> is_deleted u)"
  proof (intro ballI notI)
    fix u assume "u \<in> set (tasks d)" "task_id u = task_id t \<and> \<not> is_deleted u"
    with inj assms(2) have "u = t" "\<not> is_deleted u" by (auto simp: inj_on_def)
    with assms(3) show False by simp
  qed
  then have "filter (\<lambda>u. task_id u = task_id t \<and> \<not> is_deleted u) (tasks d) = []"
    by (rule filter_key_empty)
  then show ?thesis by (simp add: get_task_def)
qed

lemma listed_not_deleted:
  assumes "schema_ok d" "u \<in> fst ` set (p_tasks (list_tasks c p tq lim off d))"
  shows "u \<in> set (tasks d)" "\<not> is_deleted u"
  using assms(2) page_set_subset [of c p tq lim off d]
  by (auto simp: select_tasks_set base_filters_def)

subsection \<open>Running the handlers on the example database\<close>

lemmas ex_defs = ex_db_def ex_task_def ex_work_def ex_urgent_def ex_create_def ex_fromisoformat_def empty_db_def

lemmas h_defs = create_task_def delete_task_def next_id_def set_task_tags_def tags_of_def Let_def

lemma ex_db_reachable: "reachable ex_db"
proof -
  let ?d1 = "\<lparr>tasks = [ex_task 1 ''A'' 5 10], tags = [ex_work, ex_urgent],
              task_tags = [(1, 1), (1, 2)]\<rparr>"
  let ?d2 = "\<lparr>tasks = [ex_task 1 ''A'' 5 10, ex_task 2 ''B'' 3 11], tags = [ex_work, ex_urgent],
              task_tags = [(1, 1), (1, 2), (2, 2)]\<rparr>"
  let ?d3 = "\<lparr>tasks = [ex_task 1 ''A'' 5 10, ex_task 2 ''B'' 3 11, ex_task 3 ''C'' 5 12],
              tags = [ex_work, ex_urgent], task_tags = [(1, 1), (1, 2), (2, 2)]\<rparr>"
  have "create_task ex_fromisoformat 10 (ex_create ''A'' 5 (Some [''work'', ''urgent''])) empty_db
          = (Inr (ex_task 1 ''A'' 5 10, [ex_work, ex_urgent]), ?d1)"
    by (simp add: ex_defs h_defs)
  then have s1: "step empty_db ?d1" by (rule step_create)
  have "create_task ex_fromisoformat 11 (ex_create ''B'' 3 (Some [''urgent''])) ?d1
          = (Inr (ex_task 2 ''B'' 3 11, [ex_urgent]), ?d2)"
    by (simp add: ex_defs h_defs)
  then have s2: "step ?d1 ?d2" by (rule step_create)
  have "create_task ex_fromisoformat 12 (ex_create ''C'' 5 None) ?d2
          = (Inr (ex_task 3 ''C'' 5 12, []), ?d3)"
    by (simp add: ex_defs h_defs)
  then have s3: "step ?d2 ?d3" by (rule step_create)
  have "delete_task 20 21 3 ?d3 = (Inr (), ex_db)"
    by (simp add: ex_defs h_defs)
  then have s4: "step ?d3 ex_db" by (rule step_delete)
  from s1 s2 s3 s4 have "step\<^sup>*\<^sup>* empty_db ex_db" by simp
  then show ?thesis by (simp add: reachable_def)
qed

lemmas u_defs = update_task_def update_tags_value_def convert_due_date_def flush_task_def
  null_written_def set_fields_def no_update_def get_task_def body_tags_def validate_tags_def

subsection \<open>Soft delete\<close>

text \<open>
  C3. Under the schema's constraints, a task row with \<open>is_deleted\<close> set stays in the
  table, unchanged, through every later sequence of committed requests; in every such later
  state \<open>get_task\<close> on its id answers \<open>NotFound\<close>, and no page of \<open>list_tasks\<close>,
  whatever the filters, limit and offset, holds a deleted task or a task of that id.
\<close>

theorem soft_deleted_never_observable:
  assumes "schema_ok d" "t \<in> set (tasks d)" "is_deleted t" "step\<^sup>*\<^sup>* d d'"
  shows "t \<in> set (tasks d') \<and>
         get_task (task_id t) d' = Inl NotFound \<and>
         (\<forall>u\<in>fst ` set (p_tasks (list_tasks completed_q priority_q tags_q limit offset d')).
             \<not> is_deleted u \<and> task_id u \<noteq> task_id t)"
proof -
  from assms(4,1) have s': "schema_ok d'" by (rule schema_ok_steps)
  from assms(4,1,2,3) have t': "t \<in> set (tasks d')" by (rule deleted_row_stays_steps)
  from s' have inj: "inj_on task_id (set (tasks d'))"
    by (simp add: schema_ok_def distinct_map)
  have "\<not> is_deleted u \<and> task_id u \<noteq> task_id t"
    if "u \<in> fst ` set (p_tasks (list_tasks completed_q priority_q tags_q limit offset d'))" for u
  proof -
    from listed_not_deleted [OF s' that] have u: "u \<in> set (tasks d')" "\<not> is_deleted u" .
    with assms(3) have "u \<noteq> t" by auto
    with inj u(1) t' have "task_id u \<noteq> task_id t" by (auto simp: inj_on_def)
    with u show ?thesis by simp
  qed
  with t' get_task_deleted [OF s' t' assms(3)] show ?thesis by blast
qed

theorem soft_deleted_never_observable_witness:
  "schema_ok ex_db \<and>
   (ex_task 3 ''C'' 5 12)\<lparr>is_deleted := True, deleted_at := Some 20, updated_at := 21\<rparr>
     \<in> set (tasks ex_db) \<and>
   is_deleted ((ex_task 3 ''C'' 5 12)\<lparr>is_deleted := True, deleted_at := Some 20,
                                        updated_at := 21\<rparr>) \<and>
   step\<^sup>*\<^sup>* ex_db (snd (delete_task 30 31 2 ex_db)) \<and>
   (ex_task 3 ''C'' 5 12)\<lparr>is_deleted := True, deleted_at := Some 20, updated_at := 21\<rparr>
     \<in> set (tasks (snd (delete_task 30 31 2 ex_db))) \<and>
   get_task 3 (snd (delete_task 30 31 2 ex_db)) = Inl NotFound \<and>
   map fst (p_tasks (list_tasks None (Some 5) None 20 0 (snd (delete_task 30 31 2 ex_db)))) =
     [ex_task 1 ''A'' 5 10] \<and>
   \<not> is_deleted (ex_task 1 ''A'' 5 10) \<and> task_id (ex_task 1 ''A'' 5 10) \<noteq> 3"
proof -
  let ?t = "(ex_task 3 ''C'' 5 12)\<lparr>is_deleted := True, deleted_at := Some 20, updated_at := 21\<rparr>"
  have s: "schema_ok ex_db" by (simp add: schema_ok_def ex_defs)
  have m: "?t \<in> set (tasks ex_db)" by (simp add: ex_defs)
  have del: "is_deleted ?t" by simp
  have id: "task_id ?t = 3" by (simp add: ex_defs)
  have "delete_task 30 31 2 ex_db = (Inr (), snd (delete_task 30 31 2 ex_db))"
    by (simp add: ex_defs h_defs)
  then have "step ex_db (snd (delete_task 30 31 2 ex_db))" by (rule step_delete)
  then have st: "step\<^sup>*\<^sup>* ex_db (snd (delete_task 30 31 2 ex_db))" by simp
  have page: "map fst
     (p_tasks (list_tasks None (Some 5) None 20 0 (snd (delete_task 30 31 2 ex_db)))) =
       [ex_task 1 ''A'' 5 10]"
    by (simp add: ex_defs h_defs list_tasks_def select_tasks_def base_filters_def
          order_by_created_at_desc_def comp_def)
  then have "set (map fst
     (p_tasks (list_tasks None (Some 5) None 20 0 (snd (delete_task 30 31 2 ex_db))))) =
       {ex_task 1 ''A'' 5 10}" by simp
  then have listed: "ex_task 1 ''A'' 5 10 \<in>
     fst ` set (p_tasks (list_tasks None (Some 5) None 20 0 (snd (delete_task 30 31 2 ex_db))))"
    by simp
  from soft_deleted_never_observable [OF s m del st, of None "Some 5" None 20 0] listed id
  have "?t \<in> set (tasks (snd (delete_task 30 31 2 ex_db)))"
    "get_task 3 (snd (delete_task 30 31 2 ex_db)) = Inl NotFound"
    "\<not> is_deleted (ex_task 1 ''A'' 5 10)" "task_id (ex_task 1 ''A'' 5 10) \<noteq> 3"
    by auto
  with s m del st page show ?thesis by simp
qed

text \<open>
  C7. In every database reached from the empty one by committed requests, a task has
  \<open>is_deleted = False\<close> exactly when its \<open>deleted_at\<close> is null; and every committed
  create, update or delete carries this equivalence from the database before to the one
  after.
\<close>

theorem deleted_flag_iff_deleted_at:
  "(reachable d \<longrightarrow> (\<forall>t\<in>set (tasks d). \<not> is_deleted t \<longleftrightarrow> deleted_at t = None)) \<and>
   ((\<forall>t\<in>set (tasks d). \<not> is_deleted t \<longleftrightarrow> deleted_at t = None) \<and> step d d' \<longrightarrow>
      (\<forall>t\<in>set (tasks d'). \<not> is_deleted t \<longleftrightarrow> deleted_at t = None))"
proof (intro conjI impI)
  assume "reachable d"
  then have "step\<^sup>*\<^sup>* empty_db d" by (simp add: reachable_def)
  then show "\<forall>t\<in>set (tasks d). \<not> is_deleted t \<longleftrightarrow> deleted_at t = None"
  proof (induction rule: rtranclp_induct)
    case base
    show ?case by (simp add: empty_db_def)
  next
    case (step y z)
    from step.hyps(2) step.IH show ?case by (rule deleted_flag_step)
  qed
next
  assume "(\<forall>t\<in>set (tasks d). \<not> is_deleted t \<longleftrightarrow> deleted_at t = None) \<and> step d d'"
  then show "\<forall>t\<in>set (tasks d'). \<not> is_deleted t \<longleftrightarrow> deleted_at t = None"
    using deleted_flag_step by blast
qed

theorem deleted_flag_iff_deleted_at_witness:
  "reachable ex_db \<and>
   (ex_task 3 ''C'' 5 12)\<lparr>is_deleted := True, deleted_at := Some 20, updated_at := 21\<rparr>
     \<in> set (tasks ex_db) \<and>
   (is_deleted ((ex_task 3 ''C'' 5 12)\<lparr>is_deleted := True, deleted_at := Some 20,
                                         updated_at := 21\<rparr>) = False) =
   (deleted_at ((ex_task 3 ''C'' 5 12)\<lparr>is_deleted := True, deleted_at := Some 20,
                                         updated_at := 21\<rparr>) = None) \<and>
   step ex_db (snd (delete_task 30 31 1 ex_db)) \<and>
   (ex_task 1 ''A'' 5 10)\<lparr>is_deleted := True, deleted_at := Some 30, updated_at := 31\<rparr>
     \<in> set (tasks (snd (delete_task 30 31 1 ex_db))) \<and>
   (is_deleted ((ex_task 1 ''A'' 5 10)\<lparr>is_deleted := True, deleted_at := Some 30,
                                         updated_at := 31\<rparr>) = False) =
   (deleted_at ((ex_task 1 ''A'' 5 10)\<lparr>is_deleted := True, deleted_at := Some 30,
                                         updated_at := 31\<rparr>) = None)"
proof -
  let ?t3 = "(ex_task 3 ''C'' 5 12)\<lparr>is_deleted := True, deleted_at := Some 20, updated_at := 21\<rparr>"
  let ?t1 = "(ex_task 1 ''A'' 5 10)\<lparr>is_deleted := True, deleted_at := Some 30, updated_at := 31\<rparr>"
  have m: "?t3 \<in> set (tasks ex_db)" by (simp add: ex_defs)
  have "delete_task 30 31 1 ex_db = (Inr (), snd (delete_task 30 31 1 ex_db))"
    by (simp add: ex_defs h_defs)
  then have st: "step ex_db (snd (delete_task 30 31 1 ex_db))" by (rule step_delete)
  have m': "?t1 \<in> set (tasks (snd (delete_task 30 31 1 ex_db)))"
    by (simp add: ex_defs h_defs)
  from deleted_flag_iff_deleted_at [of ex_db "snd (delete_task 30 31 1 ex_db)"]
    ex_db_reachable st
  have inv: "\<forall>t\<in>set (tasks ex_db). \<not> is_deleted t \<longleftrightarrow> deleted_at t = None"
    and inv': "\<forall>t\<in>set (tasks (snd (delete_task 30 31 1 ex_db))).
                 \<not> is_deleted t \<longleftrightarrow> deleted_at t = None"
    by blast+
  from inv m have "(is_deleted ?t3 = False) = (deleted_at ?t3 = None)" by blast
  moreover from inv' m' have "(is_deleted ?t1 = False) = (deleted_at ?t1 = None)" by blast
  ultimately show ?thesis using ex_db_reachable m st m' by blast
qed

subsection \<open>\<^verbatim>\<open>update_task\<close>\<close>

lemma get_task_row:
  assumes "get_task tid d = Inr (t, gs)"
  shows "filter (\<lambda>t. task_id t = tid \<and> \<not> is_deleted t) (tasks d) = [t]" "gs = tags_of d tid"
  using assms by (auto simp: get_task_def split: list.splits)

lemma set_fields_same_iff:
  "set_fields upd dd t = t \<longleftrightarrow>
     (title (set_fields upd dd t), description (set_fields upd dd t),
      priority (set_fields upd dd t), due_date (set_fields upd dd t),
      completed (set_fields upd dd t)) =
     (title t, description t, priority t, due_date t, completed t)"
  by (cases t) (auto simp: set_fields_def)

lemma flush_task_columns:
  assumes "flush_task now t upd dd = Inr t'"
  shows "title t' = title (set_fields upd dd t)" "description t' = description (set_fields upd dd t)"
    "priority t' = priority (set_fields upd dd t)" "due_date t' = due_date (set_fields upd dd t)"
    "completed t' = completed (set_fields upd dd t)"
    "updated_at t' = (if set_fields upd dd t = t then updated_at t else now)"
  using assms by (auto simp: flush_task_def Let_def split: if_splits)

lemma tags_of_cong:
  "tags d' = tags d \<Longrightarrow> task_tags d' = task_tags d \<Longrightarrow> tags_of d' tid = tags_of d tid"
  by (simp add: tags_of_def cong: if_cong)

lemma set_fields_absent:
  "u_title upd = None \<Longrightarrow> title (set_fields upd dd t) = title t"
  "u_description upd = None \<Longrightarrow> description (set_fields upd dd t) = description t"
  "u_priority upd = None \<Longrightarrow> priority (set_fields upd dd t) = priority t"
  "dd = None \<Longrightarrow> due_date (set_fields upd dd t) = due_date t"
  "u_completed upd = None \<Longrightarrow> completed (set_fields upd dd t) = completed t"
  by (simp_all add: set_fields_def)

lemma convert_due_date_absent:
  "convert_due_date f v = Inr dd \<Longrightarrow> v = None \<Longrightarrow> dd = None"
  by (simp add: convert_due_date_def)

text \<open>
  C2, as the code has it. A successful update sets \<open>updated_at\<close> to the current time
  when one of the columns \<open>title\<close>, \<open>description\<close>, \<open>priority\<close>, \<open>due_date\<close>,
  \<open>completed\<close> gets a value different from the one it had, and leaves \<open>updated_at\<close> as
  it was when none does: with an empty payload, with a payload that only replaces the tags,
  with a payload that sets a field to the value it has.
\<close>

theorem update_stamps_when_a_column_changes:
  assumes "get_task tid d = Inr (t, gs)"
    and "update_task fromisoformat now tid upd d = (Inr (t', gs'), d')"
  shows "updated_at t' =
           (if (title t', description t', priority t', due_date t', completed t') =
               (title t, description t, priority t, due_date t, completed t)
            then updated_at t else now)"
proof -
  from assms(2) obtain t0 new_tags d1 dd where
    row: "filter (\<lambda>t. task_id t = tid \<and> \<not> is_deleted t) (tasks d) = [t0]"
    and fl: "flush_task now t0 upd dd = Inr t'"
    by (rule update_task_success)
  from row get_task_row(1) [OF assms(1)] have "t0 = t" by simp
  with fl have fl: "flush_task now t upd dd = Inr t'" by simp
  from flush_task_columns [OF fl] set_fields_same_iff [of upd dd t]
  show ?thesis by simp
qed

theorem update_stamps_when_a_column_changes_witness:
  "get_task 1 ex_db = Inr (ex_task 1 ''A'' 5 10, [ex_work, ex_urgent]) \<and>
   update_task ex_fromisoformat 30 1 (no_update\<lparr>u_title := Some (Some ''Z'')\<rparr>) ex_db =
     (Inr ((ex_task 1 ''A'' 5 10)\<lparr>title := ''Z'', updated_at := 30\<rparr>, [ex_work, ex_urgent]),
      snd (update_task ex_fromisoformat 30 1 (no_update\<lparr>u_title := Some (Some ''Z'')\<rparr>) ex_db)) \<and>
   updated_at ((ex_task 1 ''A'' 5 10)\<lparr>title := ''Z'', updated_at := 30\<rparr>) = 30"
proof -
  have g: "get_task 1 ex_db = Inr (ex_task 1 ''A'' 5 10, [ex_work, ex_urgent])"
    by (simp add: u_defs ex_defs h_defs)
  have run: "update_task ex_fromisoformat 30 1 (no_update\<lparr>u_title := Some (Some ''Z'')\<rparr>) ex_db =
     (Inr ((ex_task 1 ''A'' 5 10)\<lparr>title := ''Z'', updated_at := 30\<rparr>, [ex_work, ex_urgent]),
      snd (update_task ex_fromisoformat 30 1 (no_update\<lparr>u_title := Some (Some ''Z'')\<rparr>) ex_db))"
    by (simp add: u_defs ex_defs h_defs)
  from g run update_stamps_when_a_column_changes [OF g run] show ?thesis by simp
qed

text \<open>
  The empty payload on task 1 of the example database at time 30: the update succeeds and
  the task it returns still has \<open>updated_at = 10\<close>.
\<close>

theorem update_stamps_every_time_counterexample:
  "get_task 1 ex_db = Inr (ex_task 1 ''A'' 5 10, [ex_work, ex_urgent]) \<and>
   fst (update_task ex_fromisoformat 30 1 no_update ex_db) =
     Inr (ex_task 1 ''A'' 5 10, [ex_work, ex_urgent]) \<and>
   updated_at (ex_task 1 ''A'' 5 10) = 10 \<and> updated_at (ex_task 1 ''A'' 5 10) \<noteq> 30"
  by (simp add: u_defs ex_defs h_defs)

text \<open>
  The same holds at that task for a payload that only replaces the tags and for one that
  sets the title to the title it has.
\<close>

lemma update_without_column_change_keeps_updated_at:
  "fst (update_task ex_fromisoformat 30 1 (no_update\<lparr>u_tags := Some (Some [''urgent''])\<rparr>) ex_db) =
     Inr (ex_task 1 ''A'' 5 10, [ex_urgent]) \<and>
   fst (update_task ex_fromisoformat 30 1 (no_update\<lparr>u_title := Some (Some ''A'')\<rparr>) ex_db) =
     Inr (ex_task 1 ''A'' 5 10, [ex_work, ex_urgent])"
  by code_simp

text \<open>
  C8. Under the schema's constraints, a successful update leaves each of \<open>title\<close>,
  \<open>description\<close>, \<open>priority\<close>, \<open>due_date\<close>, \<open>completed\<close> and the tags as it was
  when the payload does not name it, and the task and tags it returns are the ones that
  \<open>get_task\<close> reads back afterwards.
\<close>

theorem partial_update_keeps_absent_fields:
  assumes "schema_ok d"
    and "get_task tid d = Inr (t, gs)"
    and "update_task fromisoformat now tid upd d = (Inr (t', gs'), d')"
  shows "(u_title upd = None \<longrightarrow> title t' = title t) \<and>
         (u_description upd = None \<longrightarrow> description t' = description t) \<and>
         (u_priority upd = None \<longrightarrow> priority t' = priority t) \<and>
         (u_due_date upd = None \<longrightarrow> due_date t' = due_date t) \<and>
         (u_completed upd = None \<longrightarrow> completed t' = completed t) \<and>
         (u_tags upd = None \<longrightarrow> gs' = gs) \<and>
         get_task tid d' = Inr (t', gs')"
proof -
  from assms(3) obtain t0 new_tags d1 dd where
    row: "filter (\<lambda>t. task_id t = tid \<and> \<not> is_deleted t) (tasks d) = [t0]"
    and tv: "update_tags_value d (u_tags upd) = (Inr new_tags, d1)"
    and cv: "convert_due_date fromisoformat (u_due_date upd) = Inr dd"
    and fl: "flush_task now t0 upd dd = Inr t'"
    and d': "d' = (case new_tags of
             None \<Rightarrow> d1\<lparr>tasks := map (\<lambda>r. if task_id r = tid then t' else r) (tasks d1)\<rparr>
           | Some gs \<Rightarrow> set_task_tags tid gs
                (d1\<lparr>tasks := map (\<lambda>r. if task_id r = tid then t' else r) (tasks d1)\<rparr>))"
    and gs': "gs' = tags_of d' tid"
    by (rule update_task_success)
  from row get_task_row(1) [OF assms(2)] have "t0 = t" by simp
  with fl row have fl: "flush_task now t upd dd = Inr t'"
    and row: "filter (\<lambda>t. task_id t = tid \<and> \<not> is_deleted t) (tasks d) = [t]" by simp_all
  note cols = flush_task_columns [OF fl]
  have f1: "u_title upd = None \<longrightarrow> title t' = title t"
    using cols(1) set_fields_absent(1) [of upd dd t] by auto
  have f2: "u_description upd = None \<longrightarrow> description t' = description t"
    using cols(2) set_fields_absent(2) [of upd dd t] by auto
  have f3: "u_priority upd = None \<longrightarrow> priority t' = priority t"
    using cols(3) set_fields_absent(3) [of upd dd t] by auto
  have f4: "u_due_date upd = None \<longrightarrow> due_date t' = due_date t"
    using cols(4) set_fields_absent(4) [of dd upd t] convert_due_date_absent [OF cv] by auto
  have f5: "u_completed upd = None \<longrightarrow> completed t' = completed t"
    using cols(5) set_fields_absent(5) [of upd dd t] by auto
  have f6: "u_tags upd = None \<longrightarrow> gs' = gs"
  proof
    assume "u_tags upd = None"
    with update_tags_value_post(7) [OF tv] have "new_tags = None" "d1 = d" by simp_all
    with d' have "tags_of d' tid = tags_of d tid" by (intro tags_of_cong) simp_all
    with gs' get_task_row(2) [OF assms(2)] show "gs' = gs" by simp
  qed
  have stored: "get_task tid d' = Inr (t', gs')"
  proof -
    from assms(1,3) have s': "schema_ok d'" by (rule schema_ok_update)
    from d' update_tags_value_post(1) [OF tv]
    have tasks: "tasks d' = map (\<lambda>r. if task_id r = tid then t' else r) (tasks d)"
      by (cases new_tags) (simp_all add: set_task_tags_frame)
    from live_row [OF row] have "t' = (\<lambda>r. if task_id r = tid then t' else r) t" by simp
    then have "t' \<in> (\<lambda>r. if task_id r = tid then t' else r) ` set (tasks d)"
      using live_row(1) [OF row] by (rule image_eqI)
    with tasks have mem: "t' \<in> set (tasks d')" by simp
    from flush_task_keeps [OF fl] live_row [OF row]
    have id: "task_id t' = tid" and live: "\<not> is_deleted t'" by simp_all
    from s' have "distinct (map task_id (tasks d'))" by (simp add: schema_ok_def)
    from filter_key_single [OF this mem id, of "\<lambda>t. \<not> is_deleted t"] live gs'
    show ?thesis by (simp add: get_task_def)
  qed
  from f1 f2 f3 f4 f5 f6 stored show ?thesis by blast
qed

theorem partial_update_keeps_absent_fields_witness:
  "schema_ok ex_db \<and>
   get_task 1 ex_db = Inr (ex_task 1 ''A'' 5 10, [ex_work, ex_urgent]) \<and>
   update_task ex_fromisoformat 30 1 (no_update\<lparr>u_title := Some (Some ''Z'')\<rparr>) ex_db =
     (Inr ((ex_task 1 ''A'' 5 10)\<lparr>title := ''Z'', updated_at := 30\<rparr>, [ex_work, ex_urgent]),
      snd (update_task ex_fromisoformat 30 1 (no_update\<lparr>u_title := Some (Some ''Z'')\<rparr>) ex_db)) \<and>
   u_description (no_update\<lparr>u_title := Some (Some ''Z'')\<rparr>) = None \<and>
   u_priority (no_update\<lparr>u_title := Some (Some ''Z'')\<rparr>) = None \<and>
   u_due_date (no_update\<lparr>u_title := Some (Some ''Z'')\<rparr>) = None \<and>
   u_completed (no_update\<lparr>u_title := Some (Some ''Z'')\<rparr>) = None \<and>
   u_tags (no_update\<lparr>u_title := Some (Some ''Z'')\<rparr>) = None \<and>
   description ((ex_task 1 ''A'' 5 10)\<lparr>title := ''Z'', updated_at := 30\<rparr>) =
     description (ex_task 1 ''A'' 5 10) \<and>
   priority ((ex_task 1 ''A'' 5 10)\<lparr>title := ''Z'', updated_at := 30\<rparr>) =
     priority (ex_task 1 ''A'' 5 10) \<and>
   due_date ((ex_task 1 ''A'' 5 10)\<lparr>title := ''Z'', updated_at := 30\<rparr>) =
     due_date (ex_task 1 ''A'' 5 10) \<and>
   completed ((ex_task 1 ''A'' 5 10)\<lparr>title := ''Z'', updated_at := 30\<rparr>) =
     completed (ex_task 1 ''A'' 5 10) \<and>
   get_task 1 (snd (update_task ex_fromisoformat 30 1
                      (no_update\<lparr>u_title := Some (Some ''Z'')\<rparr>) ex_db)) =
     Inr ((ex_task 1 ''A'' 5 10)\<lparr>title := ''Z'', updated_at := 30\<rparr>, [ex_work, ex_urgent]) \<and>
   update_task ex_fromisoformat 30 1 (no_update\<lparr>u_completed := Some (Some True)\<rparr>) ex_db =
     (Inr ((ex_task 1 ''A'' 5 10)\<lparr>completed := True, updated_at := 30\<rparr>, [ex_work, ex_urgent]),
      snd (update_task ex_fromisoformat 30 1 (no_update\<lparr>u_completed := Some (Some True)\<rparr>) ex_db)) \<and>
   u_title (no_update\<lparr>u_completed := Some (Some True)\<rparr>) = None \<and>
   title ((ex_task 1 ''A'' 5 10)\<lparr>completed := True, updated_at := 30\<rparr>) =
     title (ex_task 1 ''A'' 5 10)"
proof -
  have s: "schema_ok ex_db" by (simp add: schema_ok_def ex_defs)
  have g: "get_task 1 ex_db = Inr (ex_task 1 ''A'' 5 10, [ex_work, ex_urgent])"
    by (simp add: u_defs ex_defs h_defs)
  have run: "update_task ex_fromisoformat 30 1 (no_update\<lparr>u_title := Some (Some ''Z'')\<rparr>) ex_db =
     (Inr ((ex_task 1 ''A'' 5 10)\<lparr>title := ''Z'', updated_at := 30\<rparr>, [ex_work, ex_urgent]),
      snd (update_task ex_fromisoformat 30 1 (no_update\<lparr>u_title := Some (Some ''Z'')\<rparr>) ex_db))"
    by (simp add: u_defs ex_defs h_defs)
  have run2: "update_task ex_fromisoformat 30 1 (no_update\<lparr>u_completed := Some (Some True)\<rparr>) ex_db =
     (Inr ((ex_task 1 ''A'' 5 10)\<lparr>completed := True, updated_at := 30\<rparr>, [ex_work, ex_urgent]),
      snd (update_task ex_fromisoformat 30 1 (no_update\<lparr>u_completed := Some (Some True)\<rparr>) ex_db))"
    by (simp add: u_defs ex_defs h_defs)
  have absent: "u_description (no_update\<lparr>u_title := Some (Some ''Z'')\<rparr>) = None"
    "u_priority (no_update\<lparr>u_title := Some (Some ''Z'')\<rparr>) = None"
    "u_due_date (no_update\<lparr>u_title := Some (Some ''Z'')\<rparr>) = None"
    "u_completed (no_update\<lparr>u_title := Some (Some ''Z'')\<rparr>) = None"
    "u_tags (no_update\<lparr>u_title := Some (Some ''Z'')\<rparr>) = None"
    "u_title (no_update\<lparr>u_completed := Some (Some True)\<rparr>) = None"
    by (simp_all add: no_update_def)
  from partial_update_keeps_absent_fields [OF s g run]
    partial_update_keeps_absent_fields [OF s g run2] s g run run2 absent
  show ?thesis by simp
qed

text \<open>
  C1, as the code has it. Under the schema's constraints, a successful update whose
  \<open>tags\<close> key is set to null leaves the task with no tags and removes no tag from the
  tag table. Null and the empty list reach the handler as the same value, since the
  validator turns an empty list into null; only a payload without the key keeps the
  tags.
\<close>

theorem update_null_tags_clears:
  assumes "schema_ok d"
    and "u_tags upd = Some None"
    and "update_task fromisoformat now tid upd d = (Inr (t', gs'), d')"
  shows "gs' = [] \<and> tags_of d' tid = [] \<and> tags d' = tags d \<and>
         body_tags (Some None) = Some None \<and> body_tags (Some (Some [])) = Some None \<and>
         body_tags None = None"
proof -
  from assms(3) obtain t0 new_tags d1 dd where
    tv: "update_tags_value d (u_tags upd) = (Inr new_tags, d1)"
    and d': "d' = (case new_tags of
             None \<Rightarrow> d1\<lparr>tasks := map (\<lambda>r. if task_id r = tid then t' else r) (tasks d1)\<rparr>
           | Some gs \<Rightarrow> set_task_tags tid gs
                (d1\<lparr>tasks := map (\<lambda>r. if task_id r = tid then t' else r) (tasks d1)\<rparr>))"
    and gs': "gs' = tags_of d' tid"
    by (rule update_task_success)
  let ?d2 = "d\<lparr>tasks := map (\<lambda>r. if task_id r = tid then t' else r) (tasks d)\<rparr>"
  from update_tags_value_post(8) [OF tv assms(2)] d'
  have d'': "d' = set_task_tags tid [] ?d2" by simp
  from assms(1) have "distinct (map tag_id (tags ?d2))" by (simp add: schema_ok_def)
  from set_task_tags_result [OF _ this, of "[]" tid] d''
  have "set (tags_of d' tid) = {}" by simp
  then have "tags_of d' tid = []" by simp
  moreover from d'' have "tags d' = tags d" by (simp add: set_task_tags_frame)
  moreover have "body_tags (Some None) = Some None" "body_tags (Some (Some [])) = Some None"
    "body_tags None = None"
    by (simp_all add: body_tags_def validate_tags_def)
  ultimately show ?thesis using gs' by simp
qed

theorem update_null_tags_clears_witness:
  "schema_ok ex_db \<and>
   u_tags (no_update\<lparr>u_tags := Some None\<rparr>) = Some None \<and>
   tags_of ex_db 1 = [ex_work, ex_urgent] \<and>
   update_task ex_fromisoformat 30 1 (no_update\<lparr>u_tags := Some None\<rparr>) ex_db =
     (Inr (ex_task 1 ''A'' 5 10, []),
      snd (update_task ex_fromisoformat 30 1 (no_update\<lparr>u_tags := Some None\<rparr>) ex_db)) \<and>
   tags_of (snd (update_task ex_fromisoformat 30 1 (no_update\<lparr>u_tags := Some None\<rparr>) ex_db)) 1
     = []"
proof -
  have s: "schema_ok ex_db" by (simp add: schema_ok_def ex_defs)
  have u: "u_tags (no_update\<lparr>u_tags := Some None\<rparr>) = Some None" by (simp add: no_update_def)
  have before: "tags_of ex_db 1 = [ex_work, ex_urgent]" by (simp add: ex_defs h_defs)
  have run: "update_task ex_fromisoformat 30 1 (no_update\<lparr>u_tags := Some None\<rparr>) ex_db =
     (Inr (ex_task 1 ''A'' 5 10, []),
      snd (update_task ex_fromisoformat 30 1 (no_update\<lparr>u_tags := Some None\<rparr>) ex_db))"
    by code_simp
  from update_null_tags_clears [OF s u run] s u before run show ?thesis by simp
qed

text \<open>
  Task 1 of the example database has the tags \<open>work\<close> and \<open>urgent\<close>; after an update
  with \<open>tags\<close> set to null it has none.
\<close>

theorem update_null_tags_unchanged_counterexample:
  "tags_of ex_db 1 = [ex_work, ex_urgent] \<and>
   body_tags (Some None) = Some None \<and>
   fst (update_task ex_fromisoformat 30 1 (no_update\<lparr>u_tags := body_tags (Some None)\<rparr>) ex_db) =
     Inr (ex_task 1 ''A'' 5 10, []) \<and>
   tags_of (snd (update_task ex_fromisoformat 30 1
                   (no_update\<lparr>u_tags := body_tags (Some None)\<rparr>) ex_db)) 1 = [] \<and>
   [ex_work, ex_urgent] \<noteq> []"
  by code_simp

subsection \<open>One tag row for each name\<close>

text \<open>
  C6. In every database reached from the empty one by committed requests, tag names are
  unique; resolving the name of a stored tag returns that tag and writes nothing; resolving
  a list of names that holds it returns that tag among the results and leaves it the only
  row of its name; and a task created with that name alone is attached to that tag, with
  no row added to the tag table.
\<close>

theorem existing_tag_reused:
  assumes "reachable d" and "g \<in> set (tags d)"
  shows "distinct (map tag_name (tags d)) \<and>
         get_or_create_tags d [tag_name g] = (Inr [g], d) \<and>
         (tag_name g \<in> set names \<and> get_or_create_tags d names = (Inr gs0, d0) \<longrightarrow>
            g \<in> set gs0 \<and> filter (\<lambda>x. tag_name x = tag_name g) (tags d0) = [g]) \<and>
         (c_tags payload = Some [tag_name g] \<and>
          create_task fromisoformat now payload d = (Inr (t, gs), d') \<longrightarrow>
            set gs = {g} \<and> tags d' = tags d \<and> (task_id t, tag_id g) \<in> set (task_tags d'))"
proof -
  from assms(1) have s: "schema_ok d" by (rule reachable_schema_ok)
  then have names: "distinct (map tag_name (tags d))" by (simp add: schema_ok_def)
  from filter_name_single [OF names assms(2)]
  have found: "get_or_create_tags d [tag_name g] = (Inr [g], d)" by simp
  have resolved: "g \<in> set gs0 \<and> filter (\<lambda>x. tag_name x = tag_name g) (tags d0) = [g]"
    if n: "tag_name g \<in> set names" and run: "get_or_create_tags d names = (Inr gs0, d0)"
  proof -
    from get_or_create_tags_post [OF run] names obtain new where
      ret: "map tag_name gs0 = names" "set gs0 \<subseteq> set (tags d0)"
      and app: "tags d0 = tags d @ new"
      and names0: "distinct (map tag_name (tags d0))"
      by (auto simp: tag_store_post_def)
    from app assms(2) have g0: "g \<in> set (tags d0)" by simp
    from n ret(1) have "tag_name g \<in> tag_name ` set gs0" by (metis list.set_map)
    then obtain h where h: "h \<in> set gs0" "tag_name h = tag_name g" by auto
    with ret(2) have "h \<in> set (tags d0)" by auto
    with names0 g0 h(2) have "h = g" by (auto simp: distinct_map inj_on_def)
    with h(1) filter_name_single [OF names0 g0] show ?thesis by simp
  qed
  have created: "set gs = {g} \<and> tags d' = tags d \<and> (task_id t, tag_id g) \<in> set (task_tags d')"
    if p: "c_tags payload = Some [tag_name g]"
      and run: "create_task fromisoformat now payload d = (Inr (t, gs), d')"
  proof -
    from run obtain dd gs0 d1 where
      tags: "(case c_tags payload of None \<Rightarrow> (Inr [], d)
        | Some names \<Rightarrow> if names = [] then (Inr [], d) else get_or_create_tags d names)
          = (Inr gs0, d1)"
      and d': "d' = set_task_tags (task_id t) gs0 (d1\<lparr>tasks := tasks d1 @ [t]\<rparr>)"
      and gs: "gs = tags_of d' (task_id t)"
      by (rule create_task_success)
    from tags p found have "gs0 = [g]" "d1 = d" by simp_all
    with d' have d'': "d' = set_task_tags (task_id t) [g] (d\<lparr>tasks := tasks d @ [t]\<rparr>)" by simp
    from s have "distinct (map tag_id (tags (d\<lparr>tasks := tasks d @ [t]\<rparr>)))"
      by (simp add: schema_ok_def)
    from set_task_tags_result [OF _ this, of "[g]" "task_id t"] assms(2) d'' gs
    have "set gs = {g}" by simp
    moreover from d'' have "tags d' = tags d" by (simp add: set_task_tags_frame)
    moreover from \<open>set gs = {g}\<close> gs have "g \<in> set (tags_of d' (task_id t))" by simp
    then have "(task_id t, tag_id g) \<in> set (task_tags d')" by (simp add: tags_of_iff)
    ultimately show ?thesis by simp
  qed
  from names found resolved created show ?thesis by blast
qed

theorem existing_tag_reused_witness:
  "reachable ex_db \<and> ex_work \<in> set (tags ex_db) \<and>
   distinct (map tag_name (tags ex_db)) \<and>
   get_or_create_tags ex_db [tag_name ex_work] = (Inr [ex_work], ex_db) \<and>
   tag_name ex_work \<in> set [''new'', ''work''] \<and>
   get_or_create_tags ex_db [''new'', ''work''] =
     (Inr [\<lparr>tag_id = 3, tag_name = ''new''\<rparr>, ex_work],
      ex_db\<lparr>tags := [ex_work, ex_urgent, \<lparr>tag_id = 3, tag_name = ''new''\<rparr>]\<rparr>) \<and>
   ex_work \<in> set [\<lparr>tag_id = 3, tag_name = ''new''\<rparr>, ex_work] \<and>
   filter (\<lambda>x. tag_name x = tag_name ex_work)
     (tags (ex_db\<lparr>tags := [ex_work, ex_urgent, \<lparr>tag_id = 3, tag_name = ''new''\<rparr>]\<rparr>)) = [ex_work] \<and>
   c_tags (ex_create ''D'' 2 (Some [''work''])) = Some [tag_name ex_work] \<and>
   create_task ex_fromisoformat 40 (ex_create ''D'' 2 (Some [''work''])) ex_db =
     (Inr (ex_task 4 ''D'' 2 40, [ex_work]),
      snd (create_task ex_fromisoformat 40 (ex_create ''D'' 2 (Some [''work''])) ex_db)) \<and>
   tags (snd (create_task ex_fromisoformat 40 (ex_create ''D'' 2 (Some [''work''])) ex_db)) =
     tags ex_db \<and>
   (task_id (ex_task 4 ''D'' 2 40), tag_id ex_work) \<in>
     set (task_tags (snd (create_task ex_fromisoformat 40
                            (ex_create ''D'' 2 (Some [''work''])) ex_db)))"
proof -
  have g: "ex_work \<in> set (tags ex_db)" by (simp add: ex_defs)
  have n: "tag_name ex_work \<in> set [''new'', ''work'']" by (simp add: ex_defs)
  have res: "get_or_create_tags ex_db [''new'', ''work''] =
     (Inr [\<lparr>tag_id = 3, tag_name = ''new''\<rparr>, ex_work],
      ex_db\<lparr>tags := [ex_work, ex_urgent, \<lparr>tag_id = 3, tag_name = ''new''\<rparr>]\<rparr>)"
    by (simp add: ex_defs h_defs)
  have p: "c_tags (ex_create ''D'' 2 (Some [''work''])) = Some [tag_name ex_work]"
    by (simp add: ex_defs)
  have run: "create_task ex_fromisoformat 40 (ex_create ''D'' 2 (Some [''work''])) ex_db =
     (Inr (ex_task 4 ''D'' 2 40, [ex_work]),
      snd (create_task ex_fromisoformat 40 (ex_create ''D'' 2 (Some [''work''])) ex_db))"
    by (simp add: ex_defs h_defs)
  from existing_tag_reused [OF ex_db_reachable g, of "[''new'', ''work'']"
      "[\<lparr>tag_id = 3, tag_name = ''new''\<rparr>, ex_work]"
      "ex_db\<lparr>tags := [ex_work, ex_urgent, \<lparr>tag_id = 3, tag_name = ''new''\<rparr>]\<rparr>"
      "ex_create ''D'' 2 (Some [''work''])"
      ex_fromisoformat 40 "ex_task 4 ''D'' 2 40" "[ex_work]"
      "snd (create_task ex_fromisoformat 40 (ex_create ''D'' 2 (Some [''work''])) ex_db)"]
    ex_db_reachable g n res p run
  show ?thesis by simp
qed

end
